theory Spec2Isabelle
  imports Main
begin

chapter \<open>The model\<close>

section \<open>Characters\<close>

text \<open>
  A document is a Python \<open>str\<close>, modelled as a \<^typ>\<open>string\<close>: one \<^typ>\<open>char\<close> per code
  point, for the code points below 256. The classes \<open>\d\<close> and \<open>\w\<close> are the ones of
  Python 3's \<open>re\<close> on \<open>str\<close> patterns, restricted to that range: \<open>\d\<close> is a decimal
  digit, \<open>\w\<close> is an alphanumeric character or the underscore.
\<close>

definition is_digit :: "char \<Rightarrow> bool" where
  "is_digit c = (c \<in> set ''0123456789'')"

definition is_word :: "char \<Rightarrow> bool" where
  "is_word c =
     (c \<in> set ''abcdefghijklmnopqrstuvwxyzABCDEFGHIJKLMNOPQRSTUVWXYZ0123456789_''
      \<or> (let n = (of_char c :: nat) in
            n \<in> {170, 178, 179, 181, 185, 186, 188, 189, 190}
            \<or> (192 \<le> n \<and> n \<noteq> 215 \<and> n \<noteq> 247)))"

definition newline :: char where
  "newline = CHR 0x0A"

section \<open>Regular expressions with backtracking\<close>

text \<open>
  The constructs of \<open>re\<close> that the program uses. \<open>Atom p\<close> is one character of a class,
  \<open>Rep lo hi r\<close> is \<open>r{lo,hi}\<close>, \<open>Star r\<close> is \<open>r*\<close>, \<open>Group r\<close> is a capturing group
  \<open>(r)\<close>; \<open>(?:r)\<close> is \<open>r\<close> itself. All repetitions are greedy.
\<close>

datatype regex =
    Eps
  | Atom "char \<Rightarrow> bool"
  | Seq regex regex
  | Rep nat nat regex
  | Star regex
  | Group regex

text \<open>
  \<open>rmatch r s\<close> lists every way \<open>r\<close> matches a prefix of \<open>s\<close>, in the order in which a
  backtracking matcher tries them: the captured texts (one per completed group, in the
  order the groups close) and the rest of \<open>s\<close>. The head of the list is the match
  \<open>re\<close> reports. An iteration of \<open>Star\<close> that consumes nothing is not repeated.
\<close>

fun rsize :: "regex \<Rightarrow> nat" where
  "rsize Eps = 1"
| "rsize (Atom p) = 1"
| "rsize (Seq a b) = Suc (rsize a + rsize b)"
| "rsize (Rep lo hi a) = Suc (hi + rsize a)"
| "rsize (Star a) = Suc (rsize a)"
| "rsize (Group a) = Suc (rsize a)"

function rmatch :: "regex \<Rightarrow> string \<Rightarrow> (string list \<times> string) list" where
  "rmatch Eps s = [([], s)]"
| "rmatch (Atom p) s = (case s of [] \<Rightarrow> [] | c # cs \<Rightarrow> if p c then [([], cs)] else [])"
| "rmatch (Seq a b) s =
     concat (map (\<lambda>x. map (\<lambda>y. (fst x @ fst y, snd y)) (rmatch b (snd x))) (rmatch a s))"
| "rmatch (Rep lo hi a) s =
     (if hi = 0 then [([], s)]
      else concat (map (\<lambda>x. map (\<lambda>y. (fst x @ fst y, snd y))
                              (rmatch (Rep (lo - 1) (hi - 1) a) (snd x))) (rmatch a s))
           @ (if lo = 0 then [([], s)] else []))"
| "rmatch (Star a) s =
     concat (map (\<lambda>x. if length (snd x) < length s
                       then map (\<lambda>y. (fst x @ fst y, snd y)) (rmatch (Star a) (snd x))
                       else []) (rmatch a s))
     @ [([], s)]"
| "rmatch (Group a) s =
     map (\<lambda>x. (fst x @ [take (length s - length (snd x)) s], snd x)) (rmatch a s)"
  by pat_completeness auto
termination
  by (relation "measures [\<lambda>(r, s). rsize r, \<lambda>(r, s). length s]") auto


definition re_match :: "regex \<Rightarrow> string \<Rightarrow> (string list \<times> string) option" where
  \<comment> \<open>\<open>re.match\<close>: the first match at the start of the string.\<close>
  "re_match r s = (case rmatch r s of [] \<Rightarrow> None | x # _ \<Rightarrow> Some x)"

definition chr :: "char \<Rightarrow> regex" where
  "chr c = Atom (\<lambda>x. x = c)"

definition lit :: "string \<Rightarrow> regex" where
  "lit s = foldr (\<lambda>c r. Seq (chr c) r) s Eps"

definition seqs :: "regex list \<Rightarrow> regex" where
  "seqs rs = foldr Seq rs Eps"

definition many1 :: "regex \<Rightarrow> regex" where
  \<comment> \<open>\<open>r+\<close>\<close>
  "many1 r = Seq r (Star r)"

definition dot :: regex where
  \<comment> \<open>\<open>.\<close>: any character but a newline.\<close>
  "dot = Atom (\<lambda>c. c \<noteq> newline)"

definition digit :: regex where
  "digit = Atom is_digit"

text \<open>
  The replacement templates of \<open>re.sub\<close>: literal text and group references \<open>\1\<close>,
  \<open>\2\<close>, ... A group that did not take part in the match expands to the empty string.
\<close>

datatype ritem = Txt string | Ref nat

fun expand :: "ritem list \<Rightarrow> string list \<Rightarrow> string" where
  "expand [] caps = []"
| "expand (Txt t # is) caps = t @ expand is caps"
| "expand (Ref n # is) caps =
     (if 0 < n \<and> n \<le> length caps then caps ! (n - 1) else []) @ expand is caps"

text \<open>
  \<open>re.sub\<close>: scan from the left; where the pattern matches, emit the expanded template
  and go on after the match; elsewhere copy one character. No pattern of the program
  matches the empty string; for such a match the template is emitted and one character
  is copied.
\<close>

fun re_sub :: "regex \<Rightarrow> ritem list \<Rightarrow> string \<Rightarrow> string" where
  "re_sub r rep s =
     (case rmatch r s of
        [] \<Rightarrow> (case s of [] \<Rightarrow> [] | c # cs \<Rightarrow> c # re_sub r rep cs)
      | x # _ \<Rightarrow>
          if length (snd x) < length s then expand rep (fst x) @ re_sub r rep (snd x)
          else expand rep (fst x) @ (case s of [] \<Rightarrow> [] | c # cs \<Rightarrow> c # re_sub r rep cs))"

section \<open>Lines\<close>

fun split :: "char \<Rightarrow> string \<Rightarrow> string list" where
  \<comment> \<open>\<open>s.split(c)\<close>\<close>
  "split c [] = [[]]"
| "split c (x # xs) =
     (if x = c then [] # split c xs
      else (case split c xs of [] \<Rightarrow> [[x]] | l # ls \<Rightarrow> (x # l) # ls))"

fun join :: "string \<Rightarrow> string list \<Rightarrow> string" where
  \<comment> \<open>\<open>sep.join(ls)\<close>\<close>
  "join sep [] = []"
| "join sep [l] = l"
| "join sep (l # ls) = l @ sep @ join sep ls"

fun str :: "nat \<Rightarrow> string" where
  \<comment> \<open>\<open>str(n)\<close> of a natural number: its decimal digits.\<close>
  "str n = (if n < 10 then [''0123456789'' ! n]
            else str (n div 10) @ [''0123456789'' ! (n mod 10)])"

datatype error = IndexError | IOError | UnicodeDecodeError

section \<open>The transformation pipeline\<close>

subsection \<open>Header\<close>

definition kind_value :: regex where
  \<comment> \<open>\<open>[ \-\w]+\<close>\<close>
  "kind_value = many1 (Atom (\<lambda>c. c = CHR '' '' \<or> c = CHR ''-'' \<or> is_word c))"

definition convert_header :: "string \<Rightarrow> string" where
  "convert_header contents =
     (let replacement = re_sub (lit (''WEBVTT'' @ [newline])) [] contents;
          replacement = re_sub (seqs [lit ''Kind:'', kind_value, chr newline]) [] replacement;
          replacement = re_sub (seqs [lit ''Language:'', kind_value, chr newline]) [] replacement
      in replacement)"

subsection \<open>Timestamps\<close>

definition cue_setting :: regex where
  \<comment> \<open>\<open>[ \-\w]+:[\w\%\d:,.]+\<close>\<close>
  "cue_setting =
     seqs [many1 (Atom (\<lambda>c. c = CHR '' '' \<or> c = CHR ''-'' \<or> is_word c)),
           chr CHR '':'',
           many1 (Atom (\<lambda>c. is_word c \<or> c = CHR ''%'' \<or> is_digit c \<or> c = CHR '':''
                            \<or> c = CHR '','' \<or> c = CHR ''.''))]"

definition timestamp_template :: "regex \<Rightarrow> regex \<Rightarrow> regex \<Rightarrow> regex" where
  \<comment> \<open>\<open>$a<sep>$b --> $a<sep>$b(?:[ \-\w]+:[\w\%\d:,.]+)*\n\<close>\<close>
  "timestamp_template sep a b =
     seqs [a, sep, b, lit '' --> '', a, sep, b, Star cue_setting, chr newline]"

definition hms :: "nat \<Rightarrow> nat \<Rightarrow> regex" where
  \<comment> \<open>\<open>((?:\d\d:){lo,hi}\d\d)\<close>\<close>
  "hms lo hi = Group (Seq (Rep lo hi (seqs [digit, digit, chr CHR '':''])) (Seq digit digit))"

definition millis :: regex where
  \<comment> \<open>\<open>(\d{0,3})\<close>\<close>
  "millis = Group (Rep 0 3 digit)"

definition add_padding_to_timestamp :: "string \<Rightarrow> string" where
  "add_padding_to_timestamp contents =
     (let minute = hms 1 1;
          second = hms 0 0;
          padding_minute = timestamp_template (chr CHR '','') minute millis;
          padding_second = timestamp_template (chr CHR '','') second millis;
          replacement = re_sub padding_minute
             [Txt ''00:'', Ref 1, Txt '','', Ref 2, Txt '' --> 00:'', Ref 3, Txt '','', Ref 4,
              Txt [newline]] contents
      in re_sub padding_second
           [Txt ''00:00:'', Ref 1, Txt '','', Ref 2, Txt '' --> 00:00:'', Ref 3, Txt '','',
            Ref 4, Txt [newline]] replacement)"

definition convert_timestamp :: "string \<Rightarrow> string" where
  "convert_timestamp contents =
     (let all_timestamp = timestamp_template dot (hms 0 2) millis
      in add_padding_to_timestamp
           (re_sub all_timestamp
              [Ref 1, Txt '','', Ref 2, Txt '' --> '', Ref 3, Txt '','', Ref 4, Txt [newline]]
              contents))"

subsection \<open>Recognising a timestamp line\<close>

definition srt_time :: regex where
  \<comment> \<open>\<open>((\d\d:){2}\d\d),(\d{3})\<close>\<close>
  "srt_time =
     seqs [Group (Seq (Rep 2 2 (Group (seqs [digit, digit, chr CHR '':'']))) (Seq digit digit)),
           chr CHR '','', Group (Rep 3 3 digit)]"

definition has_timestamp :: "string \<Rightarrow> bool" where
  "has_timestamp content =
     (re_match (seqs [srt_time, lit '' --> '', srt_time]) content \<noteq> None)"

definition numeric_line :: "string \<Rightarrow> bool" where
  \<comment> \<open>\<open>re.match(r"^\d+$", line)\<close>: \<open>$\<close> holds at the end of the string and before a
      newline that ends it.\<close>
  "numeric_line line =
     list_ex (\<lambda>x. snd x = [] \<or> snd x = [newline]) (rmatch (many1 digit) line)"

subsection \<open>Sequence numbers\<close>

fun add_sequence_numbers_loop :: "string list \<Rightarrow> string \<Rightarrow> nat \<Rightarrow> string" where
  "add_sequence_numbers_loop [] out counter = out"
| "add_sequence_numbers_loop (line # lines) out counter =
     (if has_timestamp line
      then add_sequence_numbers_loop lines
             (out @ str counter @ [newline] @ line @ [newline]) (counter + 1)
      else add_sequence_numbers_loop lines (out @ line @ [newline]) counter)"

definition add_sequence_numbers :: "string \<Rightarrow> string" where
  "add_sequence_numbers contents = add_sequence_numbers_loop (split newline contents) [] 1"

subsection \<open>Markup\<close>

definition strip_markup :: "string \<Rightarrow> string" where
  \<comment> \<open>The five substitutions in the middle of \<open>convert_content\<close>.\<close>
  "strip_markup contents =
     (let replacement = re_sub
            (seqs [lit ''<c'', Star (Atom (\<lambda>c. c = CHR ''.'' \<or> is_word c \<or> is_digit c)),
                   chr CHR ''>'']) [] contents;
          replacement = re_sub (lit ''</c>'') [] replacement;
          replacement = re_sub
            (seqs [chr CHR ''<'', digit, digit, chr CHR '':'', digit, digit, chr CHR '':'',
                   digit, digit, dot, digit, digit, digit, chr CHR ''>'']) [] replacement;
          replacement = re_sub
            (seqs [lit ''::'',
                   many1 (Atom (\<lambda>c. c = CHR ''-'' \<or> is_word c)),
                   chr CHR ''('',
                   many1 (Atom (\<lambda>c. c = CHR ''-'' \<or> c = CHR ''.'' \<or> is_word c \<or> is_digit c)),
                   chr CHR '')'',
                   Star (chr CHR '' ''),
                   chr CHR ''{'',
                   many1 (Atom (\<lambda>c. c \<in> set ''.,:;() -'' \<or> is_word c \<or> is_digit c)),
                   lit ([newline] @ '' }'' @ [newline])]) [] replacement;
          replacement = re_sub (lit (''Style:'' @ [newline] @ ''##'' @ [newline])) [] replacement
      in replacement)"

subsection \<open>The first variant\<close>

definition convert_content :: "string \<Rightarrow> string" where
  "convert_content contents =
     (let replacement = convert_timestamp contents;
          replacement = convert_header replacement;
          replacement = strip_markup replacement;
          replacement = add_sequence_numbers replacement
      in replacement)"


subsection \<open>The second variant: blank lines and stale identifiers\<close>

definition index :: "'a list \<Rightarrow> int \<Rightarrow> error + 'a" where
  \<comment> \<open>\<open>xs[i]\<close>: a negative index counts from the end.\<close>
  "index xs i =
     (if 0 \<le> i \<and> i < int (length xs) then Inr (xs ! nat i)
      else if i < 0 \<and> - int (length xs) \<le> i then Inr (xs ! nat (int (length xs) + i))
      else Inl IndexError)"

definition pop :: "'a list \<Rightarrow> error + 'a list" where
  \<comment> \<open>\<open>xs.pop()\<close>, the list that is left.\<close>
  "pop xs = (if xs = [] then Inl IndexError else Inr (butlast xs))"

function remove_blank_lines_loop ::
    "string list \<Rightarrow> nat \<Rightarrow> string list \<Rightarrow> error + string list" where
  "remove_blank_lines_loop lines num out =
     (if num < length lines then
        (case (if numeric_line (lines ! num)
               then map_sum id has_timestamp (index lines (int num + 1))
               else Inr False) of
           Inl e \<Rightarrow> Inl e
         | Inr True \<Rightarrow>
             remove_blank_lines_loop lines (num + 2)
               ((if num = 0 then out else out @ [[]]) @ [lines ! num] @ [lines ! (num + 1)])
         | Inr False \<Rightarrow>
             if has_timestamp (lines ! num)
             then remove_blank_lines_loop lines (num + 1)
                    ((if num = 0 then out else out @ [[]]) @ [lines ! num])
             else remove_blank_lines_loop lines (num + 1) (out @ [lines ! num]))
      else Inr out)"
  by pat_completeness auto
termination
  by (relation "measure (\<lambda>(lines, num, out). length lines - num)") auto

definition remove_blank_lines :: "string \<Rightarrow> error + string" where
  "remove_blank_lines contents =
     (let lines = split newline contents;
          lines = filter (\<lambda>x. x \<noteq> []) lines;
          lines = lines @ [[]]
      in case remove_blank_lines_loop lines 0 [] of
           Inl e \<Rightarrow> Inl e
         | Inr out \<Rightarrow> (case pop out of Inl e \<Rightarrow> Inl e | Inr out \<Rightarrow> Inr (join [newline] out)))"

fun remove_simple_identifiers_loop ::
    "string list \<Rightarrow> nat \<Rightarrow> string list \<Rightarrow> string list \<Rightarrow> error + string list" where
  \<comment> \<open>\<open>for i, line in enumerate(lines)\<close>: the lines, the index, the lines still to visit,
      \<open>out\<close>.\<close>
  "remove_simple_identifiers_loop lines i [] out = Inr out"
| "remove_simple_identifiers_loop lines i (line # rest) out =
     (if has_timestamp line then
        (case index lines (int i - 1) of
           Inl e \<Rightarrow> Inl e
         | Inr previous \<Rightarrow>
             if numeric_line previous then
               (case pop out of
                  Inl e \<Rightarrow> Inl e
                | Inr out \<Rightarrow> remove_simple_identifiers_loop lines (i + 1) rest (out @ [line]))
             else remove_simple_identifiers_loop lines (i + 1) rest (out @ [line]))
      else remove_simple_identifiers_loop lines (i + 1) rest (out @ [line]))"

definition remove_simple_identifiers :: "string \<Rightarrow> error + string" where
  "remove_simple_identifiers contents =
     (let lines = split newline contents
      in case remove_simple_identifiers_loop lines 0 lines [] of
           Inl e \<Rightarrow> Inl e
         | Inr out \<Rightarrow> Inr (join [newline] out))"

definition convert_content_2 :: "string \<Rightarrow> error + string" where
  "convert_content_2 contents =
     (let replacement = convert_timestamp contents;
          replacement = convert_header replacement;
          replacement = strip_markup replacement
      in case remove_blank_lines replacement of
           Inl e \<Rightarrow> Inl e
         | Inr replacement \<Rightarrow>
             (case remove_simple_identifiers replacement of
                Inl e \<Rightarrow> Inl e
              | Inr replacement \<Rightarrow> Inr (add_sequence_numbers replacement)))"


section \<open>Files\<close>

text \<open>
  The outside of the program: what reading a path under an encoding gives, which paths
  can be opened for writing, and what has been written, as the text and the encoding it
  was written under (\<open>None\<close> is the platform's default encoding). A path is kept as the
  program passes it to \<open>open\<close>; a relative one is relative to the working directory.
  The messages printed on the way are left out.
\<close>

record world =
  readable :: "string \<Rightarrow> string \<Rightarrow> error + string"
  writable :: "string \<Rightarrow> bool"
  written :: "string \<rightharpoonup> (string option \<times> string)"

definition os_sep :: char where
  "os_sep = CHR ''/''"

definition write_text :: "world \<Rightarrow> string \<Rightarrow> string option \<Rightarrow> string \<Rightarrow> error + world" where
  \<comment> \<open>\<open>with open(filename, "w", encoding=...) as file: file.writelines(text)\<close>\<close>
  "write_text w filename enc text =
     (if writable w filename then Inr (w\<lparr>written := (written w)(filename \<mapsto> (enc, text))\<rparr>)
      else Inl IOError)"

definition write_file :: "world \<Rightarrow> string \<Rightarrow> string \<Rightarrow> string \<Rightarrow> error + world" where
  "write_file w filename data encoding_format =
     (case write_text w filename (Some encoding_format) data of
        Inr w' \<Rightarrow> Inr w'
      | Inl IOError \<Rightarrow>
          (let filename = last (split os_sep filename)
           in write_text w filename (Some encoding_format) data)
      | Inl e \<Rightarrow> Inl e)"

definition hex_digit :: "nat \<Rightarrow> char" where
  "hex_digit n = ''0123456789abcdef'' ! (n mod 16)"

definition bytes_repr :: "string \<Rightarrow> string" where
  \<comment> \<open>\<open>str(b)\<close> of a \<open>bytes\<close> object in Python 3: its \<open>repr\<close>.\<close>
  "bytes_repr b =
     (let quote = (if CHR 0x27 \<in> set b \<and> CHR 0x22 \<notin> set b then CHR 0x22 else CHR 0x27)
      in ''b'' @ [quote]
         @ concat (map (\<lambda>c.
             if c = quote \<or> c = CHR 0x5C then [CHR 0x5C, c]
             else if c = CHR 0x09 then [CHR 0x5C, CHR ''t'']
             else if c = CHR 0x0A then [CHR 0x5C, CHR ''n'']
             else if c = CHR 0x0D then [CHR 0x5C, CHR ''r'']
             else if (of_char c :: nat) < 32 \<or> 127 \<le> (of_char c :: nat)
               then [CHR 0x5C, CHR ''x'', hex_digit (of_char c div 16), hex_digit (of_char c)]
             else [c]) b)
         @ [quote])"

definition write_file_2 ::
    "(string \<Rightarrow> string \<Rightarrow> string) \<Rightarrow> world \<Rightarrow> string \<Rightarrow> string \<Rightarrow> string \<Rightarrow> error + world" where
  \<comment> \<open>The first argument is the codec table: \<open>encode encoding_format data\<close> stands for
      \<open>data.encode(encoding_format)\<close>, the bytes as characters.\<close>
  "write_file_2 encode w filename data encoding_format =
     (case write_text w filename (Some encoding_format) data of
        Inr w' \<Rightarrow> Inr w'
      | Inl IOError \<Rightarrow>
          (let filename = last (split os_sep filename)
           in write_text w filename None (bytes_repr (encode encoding_format data)))
      | Inl e \<Rightarrow> Inl e)"

definition utf8 :: "string \<Rightarrow> string" where
  \<comment> \<open>UTF-8 of code points below 256.\<close>
  "utf8 data =
     concat (map (\<lambda>c. let n = (of_char c :: nat)
                       in if n < 128 then [c]
                          else [char_of (192 + n div 64), char_of (128 + n mod 64)]) data)"

definition read_file :: "world \<Rightarrow> string \<Rightarrow> string \<Rightarrow> error + string" where
  "read_file w filename encoding_format = readable w filename encoding_format"

fun replace :: "string \<Rightarrow> string \<Rightarrow> string \<Rightarrow> string" where
  \<comment> \<open>\<open>s.replace(old, new)\<close> for a non-empty \<open>old\<close>: every occurrence, from the left,
      without overlaps.\<close>
  "replace old new [] = []"
| "replace old new (c # cs) =
     (if old \<noteq> [] \<and> take (length old) (c # cs) = old
      then new @ replace old new (drop (length old) (c # cs))
      else c # replace old new cs)"

definition process :: "world \<Rightarrow> string \<Rightarrow> string \<Rightarrow> error + world" where
  "process w filename encoding_format =
     (case read_file w filename encoding_format of
        Inl e \<Rightarrow> Inl e
      | Inr file_contents \<Rightarrow>
          (let str_data = [];
               str_data = str_data @ convert_content file_contents;
               filename = replace ''.vtt'' ''.srt'' filename
           in write_file w filename str_data encoding_format))"

definition process_2 ::
    "(string \<Rightarrow> string \<Rightarrow> string) \<Rightarrow> world \<Rightarrow> string \<Rightarrow> string \<Rightarrow> error + world" where
  "process_2 encode w filename encoding_format =
     (case read_file w filename encoding_format of
        Inl e \<Rightarrow> Inl e
      | Inr file_contents \<Rightarrow>
          (case convert_content_2 file_contents of
             Inl e \<Rightarrow> Inl e
           | Inr converted \<Rightarrow>
               (let str_data = [];
                    str_data = str_data @ converted;
                    filename = replace ''.vtt'' ''.srt'' filename
                in write_file_2 encode w filename str_data encoding_format)))"


fun contains :: "string \<Rightarrow> string \<Rightarrow> bool" where
  \<comment> \<open>\<open>sub in s\<close>\<close>
  "contains sub [] = (sub = [])"
| "contains sub (c # cs) = (take (length sub) (c # cs) = sub \<or> contains sub cs)"

definition convert :: "world \<Rightarrow> string \<Rightarrow> string \<Rightarrow> error + world" where
  \<comment> \<open>\<open>ConvertFile(pathname, encoding_format).convert()\<close>, first variant.\<close>
  "convert w pathname encoding_format =
     (if contains ''.vtt'' pathname then process w pathname encoding_format else Inr w)"

section \<open>Shapes of lines, for the statements\<close>

text \<open>
  A shape is a string in which \<open>d\<close> stands for any decimal digit and every other
  character for itself: \<open>shaped ''dd:dd'' s\<close> says that \<open>s\<close> is two digits, a colon and two
  digits.
\<close>

definition shape_char :: "char \<Rightarrow> char \<Rightarrow> bool" where
  "shape_char p c = (if p = CHR ''d'' then is_digit c else c = p)"

definition shaped :: "string \<Rightarrow> string \<Rightarrow> bool" where
  "shaped pat s = list_all2 shape_char pat s"

text \<open>Matching a fixed sequence of character classes, and the regexes that do just that.\<close>

fun fmatch :: "(char \<Rightarrow> bool) list \<Rightarrow> string \<Rightarrow> string option" where
  "fmatch [] s = Some s"
| "fmatch (p # ps) [] = None"
| "fmatch (p # ps) (c # cs) = (if p c then fmatch ps cs else None)"

definition fixed :: "regex \<Rightarrow> (char \<Rightarrow> bool) list \<Rightarrow> bool" where
  "fixed r ps =
     (\<forall>s. map snd (rmatch r s) = (case fmatch ps s of None \<Rightarrow> [] | Some rest \<Rightarrow> [rest]))"

section \<open>Numbering and blank lines, for the statements\<close>

text \<open>
  \<open>numbered_ok k prev ls\<close> reads the lines \<open>ls\<close> that follow the line \<open>prev\<close>: every
  line recognised as a Cue Timestamp Line comes right after a line that is its number and
  nothing else, the numbers counting up from \<open>k\<close>.
\<close>

fun numbered_ok :: "nat \<Rightarrow> string option \<Rightarrow> string list \<Rightarrow> bool" where
  "numbered_ok k prev [] = True"
| "numbered_ok k prev (l # ls) =
     (if has_timestamp l then prev = Some (str k) \<and> numbered_ok (Suc k) (Some l) ls
      else numbered_ok k (Some l) ls)"

text \<open>
  \<open>gaps_ok gap ls\<close> counts the empty lines since the last Cue Timestamp Line (\<open>None\<close>
  before the first one): no Cue Timestamp Line comes after more than one empty line since
  the one before it.
\<close>

fun gaps_ok :: "nat option \<Rightarrow> string list \<Rightarrow> bool" where
  "gaps_ok gap [] = True"
| "gaps_ok gap (l # ls) =
     (if has_timestamp l then (case gap of None \<Rightarrow> True | Some n \<Rightarrow> n \<le> 1) \<and> gaps_ok (Some 0) ls
      else if l = [] then gaps_ok (map_option Suc gap) ls
      else gaps_ok gap ls)"

section \<open>Closed forms of the loops, for the proofs\<close>

text \<open>What \<open>add_sequence_numbers\<close> makes of a list of lines, counting from \<open>k\<close>.\<close>

fun numbered :: "nat \<Rightarrow> string list \<Rightarrow> string list" where
  "numbered k [] = []"
| "numbered k (l # ls) =
     (if has_timestamp l then str k # l # numbered (Suc k) ls else l # numbered k ls)"

text \<open>
  What the loop of \<open>remove_blank_lines\<close> appends for the lines still to visit; \<open>first\<close>
  says that the scan is at index 0.
\<close>

fun blocks :: "bool \<Rightarrow> string list \<Rightarrow> string list" where
  "blocks first [] = []"
| "blocks first [a] =
     (if has_timestamp a then (if first then [] else [[]]) @ [a] else [a])"
| "blocks first (a # b # rest) =
     (if numeric_line a \<and> has_timestamp b
        then (if first then [] else [[]]) @ [a, b] @ blocks False rest
      else if has_timestamp a
        then (if first then [] else [[]]) @ [a] @ blocks False (b # rest)
      else a # blocks False (b # rest))"

text \<open>What the loop of \<open>remove_simple_identifiers\<close> keeps, from the second line on.\<close>

fun drop_ids :: "string list \<Rightarrow> string list" where
  "drop_ids (a # b # rest) =
     (if numeric_line a \<and> has_timestamp b then drop_ids (b # rest)
      else a # drop_ids (b # rest))"
| "drop_ids ls = ls"

text \<open>Every empty line is followed by a Cue Timestamp Line.\<close>

fun seps_ok :: "string list \<Rightarrow> bool" where
  "seps_ok [] = True"
| "seps_ok [a] = (a \<noteq> [])"
| "seps_ok (a # b # rest) = ((a \<noteq> [] \<or> has_timestamp b) \<and> seps_ok (b # rest))"

section \<open>Cue settings, for the statements\<close>

text \<open>
  The text after the second timestamp that the timestamp patterns discard: any text
  that \<open>(?:[ \-\w]+:[\w\%\d:,.]+)*\<close> matches as a whole, such as \<open> align:start\<close> or
  \<open> line:0 position:20%\<close>; the empty text is one.
\<close>

definition cue_settings :: "string \<Rightarrow> bool" where
  "cue_settings cs = list_ex (\<lambda>x. snd x = []) (rmatch (Star cue_setting) cs)"

section \<open>Evaluating a match step by step, for the proofs\<close>

text \<open>
  \<open>rmatch (Seq a b) s\<close> continues every match of \<open>a\<close> with \<open>b\<close>; \<open>then_match b\<close> is that
  continuation, named so that it is unfolded for one match of \<open>a\<close> at a time.
\<close>

definition then_match :: "regex \<Rightarrow> string list \<times> string \<Rightarrow> (string list \<times> string) list" where
  "then_match b x = map (\<lambda>y. (fst x @ fst y, snd y)) (rmatch b (snd x))"

text \<open>Regexes without a capturing group, and regexes that cannot consume a newline.\<close>

fun group_free :: "regex \<Rightarrow> bool" where
  "group_free Eps = True"
| "group_free (Atom p) = True"
| "group_free (Seq a b) = (group_free a \<and> group_free b)"
| "group_free (Rep lo hi a) = group_free a"
| "group_free (Star a) = group_free a"
| "group_free (Group a) = False"

fun nl_free :: "regex \<Rightarrow> bool" where
  "nl_free Eps = True"
| "nl_free (Atom p) = (\<not> p newline)"
| "nl_free (Seq a b) = (nl_free a \<and> nl_free b)"
| "nl_free (Rep lo hi a) = nl_free a"
| "nl_free (Star a) = nl_free a"
| "nl_free (Group a) = nl_free a"

chapter \<open>Properties\<close>

section \<open>Recognised lines\<close>

text \<open>
  The pattern of \<open>has_timestamp\<close> is a fixed sequence of 29 character classes, so the
  backtracking matcher has one way at most to match it.
\<close>

lemma fmatch_append:
  "fmatch (ps @ qs) s = (case fmatch ps s of None \<Rightarrow> None | Some r \<Rightarrow> fmatch qs r)"
  by (induction ps s rule: fmatch.induct) auto

lemma fixed_Eps: "fixed Eps []"
  by (simp add: fixed_def)

lemma fixed_Atom: "fixed (Atom p) [p]"
  by (auto simp: fixed_def split: list.splits)

lemma fixed_Seq:
  assumes "fixed a ps" and "fixed b qs"
  shows "fixed (Seq a b) (ps @ qs)"
proof -
  have "map snd (rmatch (Seq a b) s)
        = concat (map (\<lambda>r. map snd (rmatch b r)) (map snd (rmatch a s)))" for s
    by (simp add: map_concat comp_def)
  with assms show ?thesis
    by (auto simp: fixed_def fmatch_append split: option.splits)
qed

lemma fixed_Group: "fixed a ps \<Longrightarrow> fixed (Group a) ps"
  by (simp add: fixed_def comp_def)

lemma fixed_Rep: 
  assumes "fixed a ps"
  shows "fixed (Rep n n a) (concat (replicate n ps))"
proof (induction n)
  case 0
  show ?case by (simp add: fixed_def)
next
  case (Suc n)
  have "map snd (rmatch (Rep (Suc n) (Suc n) a) s)
        = concat (map (\<lambda>r. map snd (rmatch (Rep n n a) r)) (map snd (rmatch a s)))" for s
    by (simp add: map_concat comp_def)
  with assms Suc show ?case
    by (auto simp: fixed_def fmatch_append split: option.splits)
qed

lemma fixed_chr: "fixed (chr c) [\<lambda>x. x = c]"
  by (simp add: chr_def fixed_Atom)

lemma fixed_seqs_Nil: "fixed (seqs []) []"
  by (simp add: seqs_def fixed_Eps)

lemma fixed_seqs_Cons: "fixed r ps \<Longrightarrow> fixed (seqs rs) qs \<Longrightarrow> fixed (seqs (r # rs)) (ps @ qs)"
  by (simp add: seqs_def fixed_Seq)

lemma fixed_lit: "fixed (lit s) (map (\<lambda>c x. x = c) s)"
  by (induction s) (auto simp: lit_def fixed_Eps dest: fixed_Seq [OF fixed_chr])

lemma shape_char_d: "shape_char CHR ''d'' = is_digit"
  by (rule ext) (simp add: shape_char_def)

lemma shape_char_lit: "p \<noteq> CHR ''d'' \<Longrightarrow> shape_char p = (\<lambda>x. x = p)"
  by (rule ext) (simp add: shape_char_def)

lemma fixed_srt_time: "fixed srt_time (map shape_char ''dd:dd:dd,ddd'')"
proof -
  have d: "fixed digit [is_digit]" by (simp add: digit_def fixed_Atom)
  have "fixed (seqs [digit, digit, chr CHR '':'']) ([is_digit] @ [is_digit] @ [\<lambda>x. x = CHR '':''] @ [])"
    by (intro fixed_seqs_Cons fixed_seqs_Nil d fixed_chr)
  then have hm: "fixed (Rep 2 2 (Group (seqs [digit, digit, chr CHR '':''])))
               (concat (replicate 2 ([is_digit] @ [is_digit] @ [\<lambda>x. x = CHR '':''] @ [])))"
    by (intro fixed_Rep fixed_Group)
  have ms: "fixed (Rep 3 3 digit) (concat (replicate 3 [is_digit]))"
    by (intro fixed_Rep d)
  have "fixed srt_time
     ((concat (replicate 2 ([is_digit] @ [is_digit] @ [\<lambda>x. x = CHR '':''] @ [])) @ [is_digit] @ [is_digit])
      @ [\<lambda>x. x = CHR '',''] @ concat (replicate 3 [is_digit]) @ [])"
    unfolding srt_time_def
    by (intro fixed_seqs_Cons fixed_seqs_Nil fixed_Group fixed_Seq fixed_chr hm ms d)
  then show ?thesis
    by (simp add: numeral_2_eq_2 numeral_3_eq_3 shape_char_d shape_char_lit)
qed

lemma fixed_has_timestamp:
  "fixed (seqs [srt_time, lit '' --> '', srt_time])
     (map shape_char ''dd:dd:dd,ddd --> dd:dd:dd,ddd'')"
proof -
  have "fixed (seqs [srt_time, lit '' --> '', srt_time])
          (map shape_char ''dd:dd:dd,ddd'' @ map (\<lambda>c x. x = c) '' --> ''
           @ map shape_char ''dd:dd:dd,ddd'' @ [])"
    by (intro fixed_seqs_Cons fixed_seqs_Nil fixed_srt_time fixed_lit)
  then show ?thesis
    by (simp add: shape_char_lit)
qed

lemma fmatch_shaped:
  "length pat = n \<Longrightarrow> fmatch (map shape_char pat) s \<noteq> None \<longleftrightarrow> shaped pat (take n s)"
proof (induction pat arbitrary: s n)
  case Nil
  then show ?case by (simp add: shaped_def)
next
  case (Cons p pat)
  show ?case
  proof (cases s)
    case Nil
    then show ?thesis by (simp add: shaped_def)
  next
    case (Cons c cs)
    with Cons.IH [of "length pat" cs] Cons.prems show ?thesis by (auto simp: shaped_def)
  qed
qed

lemma has_timestamp_shaped:
  "has_timestamp line \<longleftrightarrow> shaped ''dd:dd:dd,ddd --> dd:dd:dd,ddd'' (take 29 line)"
proof -
  have "has_timestamp line \<longleftrightarrow> map snd (rmatch (seqs [srt_time, lit '' --> '', srt_time]) line) \<noteq> []"
    by (simp add: has_timestamp_def re_match_def split: list.splits)
  also have "\<dots> \<longleftrightarrow> fmatch (map shape_char ''dd:dd:dd,ddd --> dd:dd:dd,ddd'') line \<noteq> None"
    using fixed_has_timestamp by (simp add: fixed_def split: option.splits)
  also have "\<dots> \<longleftrightarrow> shaped ''dd:dd:dd,ddd --> dd:dd:dd,ddd'' (take 29 line)"
    by (rule fmatch_shaped) simp
  finally show ?thesis .
qed


lemma has_timestamp_example:
  "has_timestamp ''00:00:01,000 --> 00:00:02,000 extra''"
  by (simp add: has_timestamp_shaped shaped_def shape_char_def is_digit_def)

text \<open>
  Claim C7, as amended. \<open>has_timestamp\<close> uses \<open>re.match\<close>, which anchors the pattern at
  the start of the line only: a line is recognised as a Cue Timestamp Line if and only if
  its first 29 characters have the exact SRT shape \<open>HH:MM:SS,mmm --> HH:MM:SS,mmm\<close>;
  whatever follows them on the line is not looked at.
\<close>

theorem has_timestamp_recognises_prefix:
  "has_timestamp line \<longleftrightarrow> shaped ''dd:dd:dd,ddd --> dd:dd:dd,ddd'' (take 29 line)"
  by (rule has_timestamp_shaped)

theorem has_timestamp_recognises_prefix_witness:
  "has_timestamp ''00:00:01,000 --> 00:00:02,000''
   \<and> \<not> has_timestamp ''00:00:01.000 --> 00:00:02.000''
   \<and> \<not> has_timestamp ''0:00:01,000 --> 00:00:02,000''"
  by (simp add: has_timestamp_recognises_prefix shaped_def shape_char_def is_digit_def)

text \<open>
  Claim C7 as stated fails: a line with trailing characters after the second timestamp
  does not have the exact shape, and is recognised all the same.
\<close>

theorem has_timestamp_exact_shape_counterexample:
  "has_timestamp ''00:00:01,000 --> 00:00:02,000 extra''
   \<and> \<not> shaped ''dd:dd:dd,ddd --> dd:dd:dd,ddd'' ''00:00:01,000 --> 00:00:02,000 extra''"
  using has_timestamp_example by (simp add: shaped_def)

section \<open>Lines, numbers and numeric lines\<close>

declare str.simps [simp del]
declare rmatch.simps(4,5) [simp del]

lemma rmatch_Star_Atom_Nil [simp]: "rmatch (Star (Atom p)) [] = [([], [])]"
  by (simp add: rmatch.simps(5))

lemma rmatch_Star_Atom_Cons [simp]:
  "rmatch (Star (Atom p)) (c # cs) =
     (if p c then rmatch (Star (Atom p)) cs else []) @ [([], c # cs)]"
  by (simp add: rmatch.simps(5) [of "Atom p" "c # cs"])

lemma split_not_Nil [simp]: "split c s \<noteq> []"
  by (induction s) (auto split: list.splits)

lemma split_no_sep: "l \<in> set (split c s) \<Longrightarrow> c \<notin> set l"
  by (induction s arbitrary: l) (auto split: list.splits if_splits)

lemma split_append_sep: "c \<notin> set l \<Longrightarrow> split c (l @ c # s) = l # split c s"
  by (induction l) auto

lemma split_no_sep_id: "c \<notin> set l \<Longrightarrow> split c l = [l]"
  by (induction l) auto

lemma join_split: "join [c] (split c s) = s"
proof (induction s)
  case Nil
  show ?case by simp
next
  case (Cons x xs)
  show ?case
  proof (cases "split c xs")
    case Nil
    then show ?thesis by simp
  next
    case (Cons l ls)
    with Cons.IH show ?thesis by (cases ls) auto
  qed
qed

lemma split_join:
  "ls \<noteq> [] \<Longrightarrow> \<forall>l \<in> set ls. c \<notin> set l \<Longrightarrow> split c (join [c] ls) = ls"
proof (induction "[c]" ls rule: join.induct [case_names Nil One More])
  case Nil
  then show ?case by simp
next
  case (One l)
  then show ?case by (simp add: split_no_sep_id)
next
  case (More l v va)
  then show ?case by (simp add: split_append_sep)
qed

lemma str_not_Nil [simp]: "str n \<noteq> []"
  by (subst str.simps) simp

lemma digit_nth: "k < 10 \<Longrightarrow> is_digit (''0123456789'' ! k)"
proof -
  assume "k < 10"
  then have "k \<in> {0,1,2,3,4,5,6,7,8,9}" by auto
  then show ?thesis by (auto simp: is_digit_def)
qed

lemma str_digits: "list_all is_digit (str n)"
proof (induction n rule: str.induct)
  case (1 n)
  show ?case
  proof (cases "n < 10")
    case True
    then show ?thesis by (subst str.simps) (simp add: digit_nth)
  next
    case False
    with 1 show ?thesis by (subst str.simps) (simp add: digit_nth)
  qed
qed

lemma has_timestamp_colon: "has_timestamp l \<Longrightarrow> 29 \<le> length l \<and> l ! 2 = CHR '':''"
proof -
  assume "has_timestamp l"
  then have sh: "shaped ''dd:dd:dd,ddd --> dd:dd:dd,ddd'' (take 29 l)"
    by (simp add: has_timestamp_shaped)
  then have "length (take 29 l) = 29"
    by (auto simp: shaped_def dest: list_all2_lengthD)
  then have len: "29 \<le> length l" by simp
  from sh have "shape_char (''dd:dd:dd,ddd --> dd:dd:dd,ddd'' ! 2) (take 29 l ! 2)"
    unfolding shaped_def by (rule list_all2_nthD) simp
  then have "l ! 2 = CHR '':''" by (simp add: shape_char_def)
  with len show ?thesis by simp
qed

lemma has_timestamp_Nil [simp]: "\<not> has_timestamp []"
  using has_timestamp_colon [of "[]"] by auto

lemma not_digit_colon: "\<not> is_digit CHR '':''"
  by (simp add: is_digit_def)

lemma not_digit_newline: "\<not> is_digit newline"
  by (simp add: is_digit_def newline_def)

lemma digits_no_timestamp: "list_all is_digit l \<Longrightarrow> \<not> has_timestamp l"
proof
  assume d: "list_all is_digit l" and "has_timestamp l"
  then have "29 \<le> length l" and c: "l ! 2 = CHR '':''"
    using has_timestamp_colon by auto
  then have "2 < length l" by simp
  with d have "is_digit (l ! 2)" by (simp add: list_all_length)
  with c have "is_digit CHR '':''" by simp
  then show False by (simp add: not_digit_colon)
qed

lemma has_timestamp_str [simp]: "\<not> has_timestamp (str n)"
  by (simp add: digits_no_timestamp str_digits)

lemma rmatch_Star_Atom:
  "x \<in> set (rmatch (Star (Atom p)) l) \<Longrightarrow> \<exists>ds. l = ds @ snd x \<and> list_all p ds"
proof (induction l arbitrary: x)
  case Nil
  then show ?case by simp
next
  case (Cons c cs)
  show ?case
  proof (cases "p c")
    case True
    with Cons.prems have "x = ([], c # cs) \<or> (\<exists>y \<in> set (rmatch (Star (Atom p)) cs). snd x = snd y)"
      by auto
    then show ?thesis
    proof
      assume "x = ([], c # cs)"
      then show ?thesis by simp
    next
      assume "\<exists>y \<in> set (rmatch (Star (Atom p)) cs). snd x = snd y"
      then obtain y where y: "y \<in> set (rmatch (Star (Atom p)) cs)" and xy: "snd x = snd y"
        by blast
      from Cons.IH [OF y] obtain ds where "cs = ds @ snd y" and "list_all p ds" by blast
      with True xy have "c # cs = (c # ds) @ snd x \<and> list_all p (c # ds)" by simp
      then show ?thesis by blast
    qed
  next
    case False
    with Cons.prems show ?thesis by auto
  qed
qed

lemma numeric_line_digits:
  assumes "numeric_line l"
  shows "\<exists>ds. ds \<noteq> [] \<and> list_all is_digit ds \<and> (l = ds \<or> l = ds @ [newline])"
proof -
  from assms obtain x where x: "x \<in> set (rmatch (many1 digit) l)"
    and r: "snd x = [] \<or> snd x = [newline]"
    by (auto simp: numeric_line_def list_ex_iff)
  from x obtain c cs y where l: "l = c # cs" and c: "is_digit c"
    and y: "y \<in> set (rmatch (Star (Atom is_digit)) cs)" and xy: "snd x = snd y"
    by (cases l) (auto simp: many1_def digit_def split: if_splits)
  from rmatch_Star_Atom [OF y] obtain ds where "cs = ds @ snd y" and "list_all is_digit ds"
    by blast
  with l c xy r have "c # ds \<noteq> [] \<and> list_all is_digit (c # ds) \<and> (l = c # ds \<or> l = (c # ds) @ [newline])"
    by auto
  then show ?thesis by blast
qed

lemma numeric_line_Nil [simp]: "\<not> numeric_line []"
  using numeric_line_digits [of "[]"] by auto

lemma numeric_no_timestamp: "numeric_line l \<Longrightarrow> \<not> has_timestamp l"
proof
  assume "numeric_line l" and ts: "has_timestamp l"
  then obtain ds where ds: "list_all is_digit ds" and l: "l = ds \<or> l = ds @ [newline]"
    using numeric_line_digits by blast
  from ts have len: "29 \<le> length l" and c: "l ! 2 = CHR '':''"
    using has_timestamp_colon by auto
  from l len have "2 < length ds" by auto
  with l have "l ! 2 = ds ! 2" by (auto simp: nth_append)
  moreover from ds \<open>2 < length ds\<close> have "is_digit (ds ! 2)" by (simp add: list_all_length)
  ultimately have "is_digit CHR '':''" using c by simp
  then show False by (simp add: not_digit_colon)
qed

section \<open>Sequence numbers\<close>

lemma upt_0_Suc: "[0..<Suc n] = 0 # map Suc [0..<n]"
proof -
  have "[0..<Suc n] = 0 # [Suc 0..<Suc n]" by (rule upt_conv_Cons) simp
  also have "[Suc 0..<Suc n] = map Suc [0..<n]" by (rule map_Suc_upt [symmetric])
  finally show ?thesis .
qed

lemma add_sequence_numbers_loop_eq:
  "add_sequence_numbers_loop ls out k =
     out @ concat (map (\<lambda>i. (if has_timestamp (ls ! i)
                               then str (k + length (filter has_timestamp (take i ls))) @ [newline]
                               else [])
                              @ ls ! i @ [newline]) [0..<length ls])"
proof (induction ls arbitrary: out k)
  case Nil
  show ?case by simp
next
  case (Cons l ls)
  show ?case
    by (simp add: Cons.IH upt_0_Suc comp_def del: upt_Suc cong: if_cong)
qed

lemma add_sequence_numbers_eq:
  "add_sequence_numbers contents =
     concat (map (\<lambda>i. (if has_timestamp (split newline contents ! i)
                        then str (1 + length (filter has_timestamp (take i (split newline contents))))
                             @ [newline]
                        else [])
                       @ split newline contents ! i @ [newline])
                 [0..<length (split newline contents)])"
  by (simp add: add_sequence_numbers_def add_sequence_numbers_loop_eq cong: if_cong)

lemma concat_lines: "concat (map (\<lambda>l. l @ [c]) ls) = join [c] ls @ [c]" if "ls \<noteq> []"
  using that by (induction "[c]" ls rule: join.induct) auto

lemma add_sequence_numbers_no_cue:
  assumes "filter has_timestamp (split newline contents) = []"
  shows "add_sequence_numbers contents = contents @ [newline]"
proof -
  let ?ls = "split newline contents"
  from assms have no: "\<And>l. l \<in> set ?ls \<Longrightarrow> \<not> has_timestamp l"
    by (simp add: filter_empty_conv)
  have "add_sequence_numbers contents = concat (map (\<lambda>i. ?ls ! i @ [newline]) [0..<length ?ls])"
    unfolding add_sequence_numbers_eq
    by (rule arg_cong [where f = concat], rule map_cong) (auto simp: no)
  also have "\<dots> = concat (map (\<lambda>l. l @ [newline]) (map (\<lambda>i. ?ls ! i) [0..<length ?ls]))"
    by (simp add: comp_def)
  also have "\<dots> = concat (map (\<lambda>l. l @ [newline]) ?ls)"
    by (simp add: map_nth)
  also have "\<dots> = contents @ [newline]"
    by (simp add: concat_lines join_split)
  finally show ?thesis .
qed

text \<open>
  Claim C4. \<open>add_sequence_numbers\<close> emits the lines of the document in their order, each
  followed by a newline and otherwise unchanged, and before every line it recognises as a
  Cue Timestamp Line a line holding its number: one more than the count of recognised
  lines before it. So the numbers are 1, 2, 3, ... in line order, none skipped or repeated;
  a document with no recognised line gets no number and comes out as it went in, with the
  final newline added.
\<close>

theorem add_sequence_numbers_contiguous:
  "add_sequence_numbers contents =
     concat (map (\<lambda>i. (if has_timestamp (split newline contents ! i)
                        then str (1 + length (filter has_timestamp (take i (split newline contents))))
                             @ [newline]
                        else [])
                       @ split newline contents ! i @ [newline])
                 [0..<length (split newline contents)])
   \<and> (filter has_timestamp (split newline contents) = []
        \<longrightarrow> add_sequence_numbers contents = contents @ [newline])"
proof (intro conjI impI)
  show "add_sequence_numbers contents =
     concat (map (\<lambda>i. (if has_timestamp (split newline contents ! i)
                        then str (1 + length (filter has_timestamp (take i (split newline contents))))
                             @ [newline]
                        else [])
                       @ split newline contents ! i @ [newline])
                 [0..<length (split newline contents)])"
    by (rule add_sequence_numbers_eq)
next
  assume "filter has_timestamp (split newline contents) = []"
  then show "add_sequence_numbers contents = contents @ [newline]"
    by (rule add_sequence_numbers_no_cue)
qed


theorem add_sequence_numbers_contiguous_witness:
  "add_sequence_numbers ''a\<newline>00:00:01,000 --> 00:00:02,000\<newline>b\<newline>00:00:03,000 --> 00:00:04,000''
   = ''a\<newline>1\<newline>00:00:01,000 --> 00:00:02,000\<newline>b\<newline>2\<newline>00:00:03,000 --> 00:00:04,000\<newline>''
   \<and> add_sequence_numbers ''a\<newline>b'' = ''a\<newline>b\<newline>''"
proof
  let ?c = "''a\<newline>00:00:01,000 --> 00:00:02,000\<newline>b\<newline>00:00:03,000 --> 00:00:04,000''"
  have ls: "split newline ?c
            = [''a'', ''00:00:01,000 --> 00:00:02,000'', ''b'', ''00:00:03,000 --> 00:00:04,000'']"
    by code_simp
  have ts: "has_timestamp ''00:00:01,000 --> 00:00:02,000''"
    "has_timestamp ''00:00:03,000 --> 00:00:04,000''"
    "\<not> has_timestamp ''a''" "\<not> has_timestamp ''b''"
    by (simp_all add: has_timestamp_shaped shaped_def shape_char_def is_digit_def)
  have n: "str (Suc 0) = ''1''" "str (Suc (Suc 0)) = ''2''"
    by (simp_all add: str.simps)
  from add_sequence_numbers_contiguous [of ?c, THEN conjunct1]
  show "add_sequence_numbers ?c
   = ''a\<newline>1\<newline>00:00:01,000 --> 00:00:02,000\<newline>b\<newline>2\<newline>00:00:03,000 --> 00:00:04,000\<newline>''"
    unfolding ls by (simp add: ts n newline_def)
  have "filter has_timestamp (split newline ''a\<newline>b'') = []"
    by (simp add: ts newline_def)
  with add_sequence_numbers_contiguous [of "''a\<newline>b''", THEN conjunct2]
  show "add_sequence_numbers ''a\<newline>b'' = ''a\<newline>b\<newline>''"
    by (simp add: newline_def)
qed

section \<open>Blank lines\<close>

declare remove_blank_lines_loop.simps [simp del]

lemma index_Suc: "Suc i < length xs \<Longrightarrow> index xs (int i + 1) = Inr (xs ! Suc i)"
  by (simp add: index_def nat_add_distrib)

lemma index_pred: "i < length xs \<Longrightarrow> index xs (int (Suc i) - 1) = Inr (xs ! i)"
  by (simp add: index_def)

lemma index_minus_one: "xs \<noteq> [] \<Longrightarrow> index xs (int 0 - 1) = Inr (last xs)"
proof (cases xs)
  case Nil
  assume "xs \<noteq> []"
  with Nil show ?thesis by simp
next
  case (Cons a ys)
  have "nat (int (length (a # ys)) + (int 0 - 1)) = length ys" by simp
  then show ?thesis unfolding Cons index_def
    by (simp add: last_conv_nth del: last.simps)
qed

lemma blocks_Cons:
  "blocks first (a # ls) =
     (if numeric_line a \<and> ls \<noteq> [] \<and> has_timestamp (hd ls)
        then (if first then [] else [[]]) @ [a, hd ls] @ blocks False (tl ls)
      else if has_timestamp a then (if first then [] else [[]]) @ [a] @ blocks False ls
      else a # blocks False ls)"
  by (cases ls) auto

lemma remove_blank_lines_loop_blocks:
  assumes last: "\<And>i. i < length lines \<Longrightarrow> numeric_line (lines ! i) \<Longrightarrow> Suc i < length lines"
  shows "remove_blank_lines_loop lines num out = Inr (out @ blocks (num = 0) (drop num lines))"
proof (induction "length lines - num" arbitrary: num out rule: less_induct)
  case less
  show ?case
  proof (cases "num < length lines")
    case False
    then show ?thesis
      by (simp add: remove_blank_lines_loop.simps [of lines num out])
  next
    case True
    then have d: "drop num lines = lines ! num # drop (Suc num) lines"
      by (simp add: Cons_nth_drop_Suc)
    have step1: "remove_blank_lines_loop lines (num + 1) out'
                 = Inr (out' @ blocks False (drop (Suc num) lines))" for out'
      using less [of "num + 1" out'] True by simp
    show ?thesis
    proof (cases "numeric_line (lines ! num)")
      case numeric: True
      with True have next_line: "Suc num < length lines" by (rule last)
      then have d2: "drop (Suc num) lines = lines ! Suc num # drop (num + 2) lines"
        by (simp add: Cons_nth_drop_Suc)
      show ?thesis
      proof (cases "has_timestamp (lines ! Suc num)")
        case True
        have "remove_blank_lines_loop lines (num + 2) out'
              = Inr (out' @ blocks False (drop (num + 2) lines))" for out'
          using less [of "num + 2" out'] next_line by simp
        with True numeric next_line \<open>num < length lines\<close> show ?thesis
          by (simp add: remove_blank_lines_loop.simps [of lines num out] index_Suc d d2)
      next
        case False
        from numeric have "\<not> has_timestamp (lines ! num)" by (rule numeric_no_timestamp)
        with False numeric next_line \<open>num < length lines\<close> step1 show ?thesis
          by (simp add: remove_blank_lines_loop.simps [of lines num out] index_Suc d d2)
      qed
    next
      case False
      with True step1 show ?thesis
        by (simp add: remove_blank_lines_loop.simps [of lines num out] d blocks_Cons)
    qed
  qed
qed

lemma blocks_sentinel: "blocks first (ls @ [[]]) = blocks first ls @ [[]]"
  by (induction first ls rule: blocks.induct) auto

lemma sentinel_not_numeric:
  assumes "i < length (filter (\<lambda>x. x \<noteq> []) ls @ [[]])"
    and "numeric_line ((filter (\<lambda>x. x \<noteq> []) ls @ [[]]) ! i)"
  shows "Suc i < length (filter (\<lambda>x. x \<noteq> []) ls @ [[]])"
proof -
  let ?f = "filter (\<lambda>x. x \<noteq> []) ls"
  have "i \<noteq> length ?f"
  proof
    assume "i = length ?f"
    with assms(2) show False by simp
  qed
  with assms(1) show ?thesis by simp
qed

lemma remove_blank_lines_loop_eq:
  "remove_blank_lines_loop (filter (\<lambda>x. x \<noteq> []) ls @ [[]]) 0 []
   = Inr (blocks True (filter (\<lambda>x. x \<noteq> []) ls) @ [[]])"
  using remove_blank_lines_loop_blocks [of "filter (\<lambda>x. x \<noteq> []) ls @ [[]]" 0 "[]"]
    sentinel_not_numeric [of _ ls]
  by (simp add: blocks_sentinel)

lemma remove_blank_lines_eq:
  "remove_blank_lines contents
   = Inr (join [newline] (blocks True (filter (\<lambda>x. x \<noteq> []) (split newline contents))))"
  by (simp add: remove_blank_lines_def remove_blank_lines_loop_eq pop_def)


text \<open>
  Claim C10. \<open>remove_blank_lines\<close> returns a result for every input. The lines it scans
  are the non-empty lines of the input and one empty line after them; a numeric line is
  not empty, so it is never the last of them and the look-ahead \<open>lines[num + 1]\<close> is in
  range; the scan ends (the loop is a total function, its measure \<open>len(lines) - num\<close>),
  and it ends with a non-empty \<open>out\<close>, so that \<open>out.pop()\<close> does not raise.
\<close>

theorem remove_blank_lines_total:
  "(\<exists>result. remove_blank_lines contents = Inr result)
   \<and> (let lines = filter (\<lambda>x. x \<noteq> []) (split newline contents) @ [[]]
      in (\<forall>num < length lines. numeric_line (lines ! num)
            \<longrightarrow> index lines (int num + 1) = Inr (lines ! (num + 1)))
         \<and> (\<exists>out. remove_blank_lines_loop lines 0 [] = Inr out \<and> out \<noteq> []))"
proof -
  let ?lines = "filter (\<lambda>x. x \<noteq> []) (split newline contents) @ [[]]"
  have "index ?lines (int num + 1) = Inr (?lines ! (num + 1))"
    if "num < length ?lines" and "numeric_line (?lines ! num)" for num
    using sentinel_not_numeric [OF that] by (simp add: index_Suc)
  moreover have "\<exists>out. remove_blank_lines_loop ?lines 0 [] = Inr out \<and> out \<noteq> []"
    by (simp add: remove_blank_lines_loop_eq)
  moreover have "\<exists>result. remove_blank_lines contents = Inr result"
    by (simp add: remove_blank_lines_eq)
  ultimately show ?thesis unfolding Let_def by blast
qed

theorem remove_blank_lines_total_witness:
  "(\<exists>result. remove_blank_lines ''7\<newline>\<newline>00:00:01,000 --> 00:00:02,000\<newline>A'' = Inr result)
   \<and> numeric_line ''7''
   \<and> index [''7'', ''00:00:01,000 --> 00:00:02,000'', ''A'', []] (int 0 + 1)
       = Inr ''00:00:01,000 --> 00:00:02,000''"
proof -
  let ?c = "''7\<newline>\<newline>00:00:01,000 --> 00:00:02,000\<newline>A''"
  have ls: "filter (\<lambda>x. x \<noteq> []) (split newline ?c) @ [[]]
            = [''7'', ''00:00:01,000 --> 00:00:02,000'', ''A'', []]"
    by code_simp
  have n: "numeric_line ''7''" by code_simp
  from remove_blank_lines_total [of ?c]
  have a: "\<exists>result. remove_blank_lines ?c = Inr result"
    and b: "\<forall>num < length [''7'', ''00:00:01,000 --> 00:00:02,000'', ''A'', []].
              numeric_line ([''7'', ''00:00:01,000 --> 00:00:02,000'', ''A'', []] ! num)
              \<longrightarrow> index [''7'', ''00:00:01,000 --> 00:00:02,000'', ''A'', []] (int num + 1)
                  = Inr ([''7'', ''00:00:01,000 --> 00:00:02,000'', ''A'', []] ! (num + 1))"
    unfolding Let_def ls by blast+
  from b [rule_format, of 0] n
  have "index [''7'', ''00:00:01,000 --> 00:00:02,000'', ''A'', []] (int 0 + 1)
        = Inr ''00:00:01,000 --> 00:00:02,000''"
    by simp
  with a n show ?thesis by blast
qed

section \<open>Stale identifiers\<close>

text \<open>
  \<open>remove_simple_identifiers\<close> reads \<open>lines[i - 1]\<close> also at \<open>i = 0\<close>, where it is the
  last line: when the first line is a Cue Timestamp Line and the last line is numeric,
  \<open>out.pop()\<close> is called on the empty list. Everywhere else the loop drops the numeric
  line before a Cue Timestamp Line.
\<close>

lemma drop_ids_Cons:
  "drop_ids (a # ls) =
     (if numeric_line a \<and> ls \<noteq> [] \<and> has_timestamp (hd ls) then drop_ids ls else a # drop_ids ls)"
  by (cases ls) auto

lemma remove_simple_identifiers_loop_tail:
  assumes "i < length lines"
  shows "remove_simple_identifiers_loop lines (Suc i) (drop (Suc i) lines) (out @ [lines ! i])
         = Inr (out @ drop_ids (drop i lines))"
  using assms
proof (induction "length lines - i" arbitrary: i out rule: less_induct)
  case less
  from less.prems have d: "drop i lines = lines ! i # drop (Suc i) lines"
    by (simp add: Cons_nth_drop_Suc)
  show ?case
  proof (cases "Suc i < length lines")
    case False
    with less.prems show ?thesis by (simp add: d)
  next
    case True
    then have d2: "drop (Suc i) lines = lines ! Suc i # drop (Suc (Suc i)) lines"
      by (simp add: Cons_nth_drop_Suc)
    have IH: "remove_simple_identifiers_loop lines (Suc (Suc i)) (drop (Suc (Suc i)) lines)
                (out' @ [lines ! Suc i])
              = Inr (out' @ drop_ids (drop (Suc i) lines))" for out'
      using less.hyps [of "Suc i" out'] True by simp
    from less.prems have prev: "index lines (int (Suc i) - 1) = Inr (lines ! i)"
      by (rule index_pred)
    have unfold:
      "remove_simple_identifiers_loop lines (Suc i) (lines ! Suc i # drop (Suc (Suc i)) lines)
         (out @ [lines ! i])
       = (if has_timestamp (lines ! Suc i) \<and> numeric_line (lines ! i)
          then remove_simple_identifiers_loop lines (Suc (Suc i)) (drop (Suc (Suc i)) lines)
                 (out @ [lines ! Suc i])
          else remove_simple_identifiers_loop lines (Suc (Suc i)) (drop (Suc (Suc i)) lines)
                 ((out @ [lines ! i]) @ [lines ! Suc i]))"
      using prev by (simp add: pop_def)
    have ids: "drop_ids (drop i lines)
       = (if has_timestamp (lines ! Suc i) \<and> numeric_line (lines ! i)
          then drop_ids (drop (Suc i) lines) else lines ! i # drop_ids (drop (Suc i) lines))"
      by (subst d, subst drop_ids_Cons) (auto simp: d2)
    show ?thesis
      unfolding ids
      using IH [of out] IH [of "out @ [lines ! i]"]
      by (subst d2, subst unfold) simp
  qed
qed

lemma remove_simple_identifiers_loop_eq:
  assumes "lines \<noteq> []"
  shows "remove_simple_identifiers_loop lines 0 lines []
         = (if has_timestamp (hd lines) \<and> numeric_line (last lines) then Inl IndexError
            else Inr (drop_ids lines))"
proof -
  from assms obtain l rest where lines: "lines = l # rest" by (cases lines) auto
  have "remove_simple_identifiers_loop lines (Suc 0) (drop (Suc 0) lines) ([] @ [lines ! 0])
        = Inr ([] @ drop_ids (drop 0 lines))"
    using assms by (intro remove_simple_identifiers_loop_tail) simp
  then have tail: "remove_simple_identifiers_loop (l # rest) (Suc 0) rest [l] = Inr (drop_ids (l # rest))"
    by (simp add: lines)
  have "index (l # rest) (int 0 - 1) = Inr (last (l # rest))"
    by (rule index_minus_one) simp
  then have wrap: "index (l # rest) (- 1) = Inr (last (l # rest))" by simp
  show ?thesis unfolding lines
    by (simp add: wrap tail pop_def del: last.simps)
qed

lemma remove_simple_identifiers_eq:
  "remove_simple_identifiers contents
   = (if has_timestamp (hd (split newline contents)) \<and> numeric_line (last (split newline contents))
      then Inl IndexError
      else Inr (join [newline] (drop_ids (split newline contents))))"
  by (simp add: remove_simple_identifiers_def remove_simple_identifiers_loop_eq Let_def)

section \<open>The lines of the output\<close>

lemma add_sequence_numbers_loop_numbered:
  "add_sequence_numbers_loop ls out k = out @ concat (map (\<lambda>l. l @ [newline]) (numbered k ls))"
  by (induction ls arbitrary: out k) auto

lemma split_concat_lines:
  "\<forall>l \<in> set zs. newline \<notin> set l
   \<Longrightarrow> split newline (concat (map (\<lambda>l. l @ [newline]) zs)) = zs @ [[]]"
  by (induction zs) (auto simp: split_append_sep)

lemma str_no_newline: "newline \<notin> set (str k)"
proof
  assume "newline \<in> set (str k)"
  with str_digits [of k] have "is_digit newline" by (simp add: list_all_iff)
  then show False by (simp add: not_digit_newline)
qed

lemma numbered_no_newline:
  "\<forall>l \<in> set ls. newline \<notin> set l \<Longrightarrow> \<forall>l \<in> set (numbered k ls). newline \<notin> set l"
  by (induction ls arbitrary: k) (auto simp: str_no_newline)

lemma split_add_sequence_numbers:
  "split newline (add_sequence_numbers contents) = numbered 1 (split newline contents) @ [[]]"
proof -
  have "\<forall>l \<in> set (split newline contents). newline \<notin> set l"
    by (auto dest: split_no_sep)
  then have "\<forall>l \<in> set (numbered 1 (split newline contents)). newline \<notin> set l"
    by (rule numbered_no_newline)
  then show ?thesis
    by (simp add: add_sequence_numbers_def add_sequence_numbers_loop_numbered split_concat_lines)
qed

lemma numbered_ok_numbered: "numbered_ok k prev (numbered k ls @ [[]])"
  by (induction ls arbitrary: k prev) auto

lemma seps_ok_tl: "seps_ok (a # ls) \<Longrightarrow> seps_ok ls"
  by (cases ls) auto

lemma seps_ok_empty: "seps_ok ([] # ls) \<Longrightarrow> ls \<noteq> [] \<and> has_timestamp (hd ls)"
  by (cases ls) auto

lemma gaps_ok_numbered:
  assumes "seps_ok ls"
    and "case gap of None \<Rightarrow> True | Some n \<Rightarrow> n = 0 \<or> (n = 1 \<and> ls \<noteq> [] \<and> has_timestamp (hd ls))"
  shows "gaps_ok gap (numbered k ls @ [[]])"
  using assms
proof (induction ls arbitrary: gap k)
  case Nil
  then show ?case by simp
next
  case (Cons a ls)
  from Cons.prems(1) have ok: "seps_ok ls" by (rule seps_ok_tl)
  show ?case
  proof (cases "has_timestamp a")
    case True
    have "gaps_ok (Some 0) (numbered (Suc k) ls @ [[]])"
      using ok by (rule Cons.IH) simp
    with True Cons.prems(2) show ?thesis by (auto split: option.splits)
  next
    case False
    show ?thesis
    proof (cases "a = []")
      case True
      with Cons.prems(1) have nx: "ls \<noteq> [] \<and> has_timestamp (hd ls)"
        by (simp add: seps_ok_empty)
      have "gaps_ok (map_option Suc gap) (numbered k ls @ [[]])"
        using ok
      proof (rule Cons.IH)
        from Cons.prems(2) False nx
        show "case map_option Suc gap of None \<Rightarrow> True
              | Some n \<Rightarrow> n = 0 \<or> (n = 1 \<and> ls \<noteq> [] \<and> has_timestamp (hd ls))"
          by (auto split: option.splits)
      qed
      with True False show ?thesis by simp
    next
      case nonempty: False
      have "gaps_ok gap (numbered k ls @ [[]])"
        using ok
      proof (rule Cons.IH)
        from Cons.prems(2) False
        show "case gap of None \<Rightarrow> True
              | Some n \<Rightarrow> n = 0 \<or> (n = 1 \<and> ls \<noteq> [] \<and> has_timestamp (hd ls))"
          by (auto split: option.splits)
      qed
      with nonempty False show ?thesis by simp
    qed
  qed
qed

lemma blocks_False_hd: "blocks False ls \<noteq> [] \<Longrightarrow> \<not> has_timestamp (hd (blocks False ls))"
  by (cases "(False, ls)" rule: blocks.cases) auto

lemma seps_ok_Cons:
  "seps_ok (a # ls) \<longleftrightarrow> (a \<noteq> [] \<or> (ls \<noteq> [] \<and> has_timestamp (hd ls))) \<and> seps_ok ls"
  by (cases ls) auto

lemma timestamp_not_numeric: "has_timestamp l \<Longrightarrow> \<not> numeric_line l"
  using numeric_no_timestamp by blast

lemma timestamp_nonempty: "has_timestamp l \<Longrightarrow> l \<noteq> []"
  by auto

lemma seps_ok_drop_ids_blocks:
  "\<forall>l \<in> set ls. l \<noteq> [] \<Longrightarrow> seps_ok (drop_ids (blocks first ls))"
proof (induction first ls rule: blocks.induct)
  case (1 first)
  show ?case by simp
next
  case (2 first a)
  then show ?case by (auto simp: timestamp_not_numeric)
next
  case (3 first a b rest)
  let ?Z = "blocks False rest" and ?W = "blocks False (b # rest)"
  from 3 have a: "a \<noteq> []" and b: "b \<noteq> []" by auto
  show ?case
  proof (cases "numeric_line a \<and> has_timestamp b")
    case True
    with 3 have IH: "seps_ok (drop_ids ?Z)" by simp
    from True have nb: "\<not> numeric_line b" by (simp add: timestamp_not_numeric)
    have "drop_ids (b # ?Z) = b # drop_ids ?Z"
      using nb by (simp add: drop_ids_Cons)
    with True IH b show ?thesis
      by (simp add: seps_ok_Cons)
  next
    case False
    show ?thesis
    proof (cases "has_timestamp a")
      case True
      with False 3 have IH: "seps_ok (drop_ids ?W)" by simp
      from True have na: "\<not> numeric_line a" by (rule timestamp_not_numeric)
      then have "drop_ids (a # ?W) = a # drop_ids ?W"
        by (simp add: drop_ids_Cons)
      with True na IH a show ?thesis
        by (simp add: seps_ok_Cons)
    next
      case nts: False
      with False 3 have IH: "seps_ok (drop_ids ?W)" by simp
      have "drop_ids (a # ?W) = a # drop_ids ?W"
        using blocks_False_hd [of "b # rest"] by (subst drop_ids_Cons) auto
      with nts False IH a show ?thesis
        by (auto simp: seps_ok_Cons)
    qed
  qed
qed

lemma blocks_subset: "set (blocks first ls) \<subseteq> insert [] (set ls)"
  by (induction first ls rule: blocks.induct) auto

lemma blocks_Nil_iff: "blocks first ls = [] \<longleftrightarrow> ls = []"
  by (cases "(first, ls)" rule: blocks.cases) auto

lemma drop_ids_subset: "set (drop_ids ls) \<subseteq> set ls"
  by (induction ls rule: drop_ids.induct) auto

lemma drop_ids_Nil_iff: "drop_ids ls = [] \<longleftrightarrow> ls = []"
  by (induction ls rule: drop_ids.induct) auto

lemma split_join_lines:
  "\<forall>l \<in> set ls. newline \<notin> set l
   \<Longrightarrow> split newline (join [newline] ls) = (if ls = [] then [[]] else ls)"
  by (simp add: split_join)

lemma convert_content_2_lines:
  assumes "convert_content_2 contents = Inr out"
  shows "\<exists>ls. split newline out = numbered 1 ls @ [[]] \<and> (ls = [[]] \<or> seps_ok ls)"
proof -
  define pre where "pre = strip_markup (convert_header (convert_timestamp contents))"
  define ls where "ls = filter (\<lambda>x. x \<noteq> []) (split newline pre)"
  define kept where "kept = drop_ids (split newline (join [newline] (blocks True ls)))"
  from assms have out: "out = add_sequence_numbers (join [newline] kept)"
    by (auto simp: convert_content_2_def Let_def remove_blank_lines_eq
        remove_simple_identifiers_eq pre_def ls_def kept_def split: if_splits)
  have free: "\<forall>l \<in> set ls. newline \<notin> set l"
    by (auto simp: ls_def dest: split_no_sep)
  have nonempty: "\<forall>l \<in> set ls. l \<noteq> []"
    by (simp add: ls_def)
  from free have bfree: "\<forall>l \<in> set (blocks True ls). newline \<notin> set l"
    using blocks_subset [of True ls] by auto
  show ?thesis
  proof (cases "ls = []")
    case True
    then have "kept = [[]]" by (simp add: kept_def)
    then have "split newline out = numbered 1 [[]] @ [[]]"
      by (simp add: out split_add_sequence_numbers)
    then show ?thesis by blast
  next
    case False
    then have b: "blocks True ls \<noteq> []" by (simp add: blocks_Nil_iff)
    with bfree have kept: "kept = drop_ids (blocks True ls)"
      by (simp add: kept_def split_join_lines)
    with b have k: "kept \<noteq> []" by (simp add: drop_ids_Nil_iff)
    from bfree kept have "\<forall>l \<in> set kept. newline \<notin> set l"
      using drop_ids_subset [of "blocks True ls"] by auto
    with k have "split newline (join [newline] kept) = kept"
      by (simp add: split_join_lines)
    then have "split newline out = numbered 1 kept @ [[]]"
      by (simp add: out split_add_sequence_numbers)
    moreover from nonempty have "seps_ok kept"
      unfolding kept by (rule seps_ok_drop_ids_blocks)
    ultimately show ?thesis by blast
  qed
qed

lemma convert_content_numbered_ok:
  "numbered_ok 1 None (split newline (convert_content contents))"
  by (simp add: convert_content_def Let_def split_add_sequence_numbers numbered_ok_numbered)

lemma convert_content_2_ok:
  assumes "convert_content_2 contents = Inr out"
  shows "numbered_ok 1 None (split newline out) \<and> gaps_ok None (split newline out)"
proof -
  from assms obtain ls where ls: "split newline out = numbered 1 ls @ [[]]"
    and ok: "ls = [[]] \<or> seps_ok ls"
    using convert_content_2_lines by blast
  have "numbered_ok 1 None (split newline out)"
    unfolding ls by (rule numbered_ok_numbered)
  moreover from ok have "gaps_ok None (numbered 1 ls @ [[]])"
  proof
    assume "ls = [[]]"
    then show ?thesis by simp
  next
    assume "seps_ok ls"
    then show ?thesis by (rule gaps_ok_numbered) simp
  qed
  ultimately show ?thesis by (simp add: ls)
qed

text \<open>
  Claim C5, as amended. In the output of either variant of \<open>convert_content\<close> every Cue
  Timestamp Line comes right after a line that is its sequence number and nothing else.
  The second variant, whenever it returns, leaves at most one empty line between two
  consecutive cues; the first variant has no stage that removes empty lines and keeps the
  ones of its input.
\<close>

theorem convert_content_numbers_and_gaps:
  "numbered_ok 1 None (split newline (convert_content contents))
   \<and> (\<forall>out. convert_content_2 contents = Inr out
         \<longrightarrow> numbered_ok 1 None (split newline out) \<and> gaps_ok None (split newline out))"
  using convert_content_numbered_ok convert_content_2_ok by simp

lemma gaps_doc_pre:
  "strip_markup (convert_header (convert_timestamp
     ''00:00:01.000 --> 00:00:02.000\<newline>A\<newline>\<newline>\<newline>7\<newline>00:00:03.000 --> 00:00:04.000\<newline>B\<newline>''))
   = ''00:00:01,000 --> 00:00:02,000\<newline>A\<newline>\<newline>\<newline>7\<newline>00:00:03,000 --> 00:00:04,000\<newline>B\<newline>''"
  by code_simp

lemma gaps_doc_1:
  "add_sequence_numbers
     ''00:00:01,000 --> 00:00:02,000\<newline>A\<newline>\<newline>\<newline>7\<newline>00:00:03,000 --> 00:00:04,000\<newline>B\<newline>''
   = ''1\<newline>00:00:01,000 --> 00:00:02,000\<newline>A\<newline>\<newline>\<newline>7\<newline>2\<newline>00:00:03,000 --> 00:00:04,000\<newline>B\<newline>\<newline>''"
  by code_simp

lemma gaps_doc_2:
  "remove_blank_lines
     ''00:00:01,000 --> 00:00:02,000\<newline>A\<newline>\<newline>\<newline>7\<newline>00:00:03,000 --> 00:00:04,000\<newline>B\<newline>''
   = Inr ''00:00:01,000 --> 00:00:02,000\<newline>A\<newline>\<newline>7\<newline>00:00:03,000 --> 00:00:04,000\<newline>B''"
  "remove_simple_identifiers
     ''00:00:01,000 --> 00:00:02,000\<newline>A\<newline>\<newline>7\<newline>00:00:03,000 --> 00:00:04,000\<newline>B''
   = Inr ''00:00:01,000 --> 00:00:02,000\<newline>A\<newline>\<newline>00:00:03,000 --> 00:00:04,000\<newline>B''"
  "add_sequence_numbers
     ''00:00:01,000 --> 00:00:02,000\<newline>A\<newline>\<newline>00:00:03,000 --> 00:00:04,000\<newline>B''
   = ''1\<newline>00:00:01,000 --> 00:00:02,000\<newline>A\<newline>\<newline>2\<newline>00:00:03,000 --> 00:00:04,000\<newline>B\<newline>''"
  by code_simp+

theorem convert_content_numbers_and_gaps_witness:
  "convert_content_2
     ''00:00:01.000 --> 00:00:02.000\<newline>A\<newline>\<newline>\<newline>7\<newline>00:00:03.000 --> 00:00:04.000\<newline>B\<newline>''
   = Inr ''1\<newline>00:00:01,000 --> 00:00:02,000\<newline>A\<newline>\<newline>2\<newline>00:00:03,000 --> 00:00:04,000\<newline>B\<newline>''
   \<and> numbered_ok 1 None (split newline
        ''1\<newline>00:00:01,000 --> 00:00:02,000\<newline>A\<newline>\<newline>2\<newline>00:00:03,000 --> 00:00:04,000\<newline>B\<newline>'')
   \<and> gaps_ok None (split newline
        ''1\<newline>00:00:01,000 --> 00:00:02,000\<newline>A\<newline>\<newline>2\<newline>00:00:03,000 --> 00:00:04,000\<newline>B\<newline>'')"
proof -
  have "convert_content_2
     ''00:00:01.000 --> 00:00:02.000\<newline>A\<newline>\<newline>\<newline>7\<newline>00:00:03.000 --> 00:00:04.000\<newline>B\<newline>''
   = Inr ''1\<newline>00:00:01,000 --> 00:00:02,000\<newline>A\<newline>\<newline>2\<newline>00:00:03,000 --> 00:00:04,000\<newline>B\<newline>''"
    by (simp add: convert_content_2_def gaps_doc_pre gaps_doc_2)
  with convert_content_numbers_and_gaps
    [of "''00:00:01.000 --> 00:00:02.000\<newline>A\<newline>\<newline>\<newline>7\<newline>00:00:03.000 --> 00:00:04.000\<newline>B\<newline>''"]
  show ?thesis by blast
qed

text \<open>
  Claim C5 as stated fails on the first variant: two cues that two empty lines separate
  in the input are separated by them in the output (and the stale identifier \<open>7\<close> stays).
\<close>

theorem convert_content_gaps_counterexample:
  "\<not> gaps_ok None (split newline (convert_content
     ''00:00:01.000 --> 00:00:02.000\<newline>A\<newline>\<newline>\<newline>7\<newline>00:00:03.000 --> 00:00:04.000\<newline>B\<newline>''))"
proof -
  have "\<not> gaps_ok None (split newline
     ''1\<newline>00:00:01,000 --> 00:00:02,000\<newline>A\<newline>\<newline>\<newline>7\<newline>2\<newline>00:00:03,000 --> 00:00:04,000\<newline>B\<newline>\<newline>'')"
    by code_simp
  then show ?thesis
    by (simp add: convert_content_def gaps_doc_pre gaps_doc_1)
qed

lemma numeric_last_pre:
  "strip_markup (convert_header (convert_timestamp ''00:00:01,000 --> 00:00:02,000\<newline>42\<newline>''))
   = ''00:00:01,000 --> 00:00:02,000\<newline>42\<newline>''"
  by code_simp

lemma numeric_last_blank:
  "remove_blank_lines ''00:00:01,000 --> 00:00:02,000\<newline>42\<newline>''
   = Inr ''00:00:01,000 --> 00:00:02,000\<newline>42''"
  by code_simp

lemma numeric_last_ids:
  "remove_simple_identifiers ''00:00:01,000 --> 00:00:02,000\<newline>42'' = Inl IndexError"
  by code_simp

text \<open>
  Claim C6 fails on the code. A document in SRT shape whose first line is a Cue Timestamp
  Line and whose last line is a number (here a cue whose text is \<open>42\<close>) makes the second
  variant's \<open>convert_content\<close> raise \<open>IndexError\<close>: at \<open>i = 0\<close> the line before the
  timestamp is taken to be \<open>lines[-1]\<close>, the last line, and \<open>out.pop()\<close> finds \<open>out\<close> empty.
\<close>

theorem convert_content_2_raises:
  "convert_content_2 ''00:00:01,000 --> 00:00:02,000\<newline>42\<newline>'' = Inl IndexError"
  by (simp add: convert_content_2_def numeric_last_pre numeric_last_blank numeric_last_ids)

theorem convert_content_2_raises_witness:
  "(case convert_content_2 ''00:00:01,000 --> 00:00:02,000\<newline>42\<newline>'' of
      Inl e \<Rightarrow> e = IndexError | Inr out \<Rightarrow> False)"
  by (simp add: convert_content_2_raises)

section \<open>Files\<close>

declare replace.simps [simp del]

lemma replace_Nil [simp]: "replace old new [] = []"
  by (simp add: replace.simps)

lemma replace_no_occurrence: "\<not> contains old s \<Longrightarrow> replace old new s = s"
  by (induction s) (auto simp: replace.simps)

lemma vtt_prefix_append:
  "take 4 (a @ ''.vtt'' @ b) = ''.vtt'' \<longleftrightarrow> a = [] \<or> take 4 a = ''.vtt''"
proof (cases a)
  case Nil
  then show ?thesis by simp
next
  case (Cons c1 a1)
  show ?thesis
  proof (cases a1)
    case Nil
    with Cons show ?thesis by auto
  next
    case (Cons c2 a2)
    note a1 = this
    show ?thesis
    proof (cases a2)
      case Nil
      with a1 \<open>a = c1 # a1\<close> show ?thesis by auto
    next
      case (Cons c3 a3)
      with a1 \<open>a = c1 # a1\<close> show ?thesis by (cases a3) auto
    qed
  qed
qed

lemma replace_vtt_skip:
  "s \<noteq> [] \<Longrightarrow> take 4 s \<noteq> ''.vtt''
   \<Longrightarrow> replace ''.vtt'' ''.srt'' s = hd s # replace ''.vtt'' ''.srt'' (tl s)"
  by (cases s) (auto simp: replace.simps eval_nat_numeral)

lemma replace_vtt_hit:
  "take 4 s = ''.vtt''
   \<Longrightarrow> replace ''.vtt'' ''.srt'' s = ''.srt'' @ replace ''.vtt'' ''.srt'' (drop 4 s)"
  by (cases s) (auto simp: replace.simps eval_nat_numeral)

lemma replace_vtt_append:
  "replace ''.vtt'' ''.srt'' (a @ ''.vtt'' @ b)
   = replace ''.vtt'' ''.srt'' a @ ''.srt'' @ replace ''.vtt'' ''.srt'' b"
proof (induction "length a" arbitrary: a rule: less_induct)
  case less
  show ?case
  proof (cases "a = []")
    case True
    then show ?thesis by (simp add: replace_vtt_hit)
  next
    case nonempty: False
    show ?thesis
    proof (cases "take 4 a = ''.vtt''")
      case True
      have "length ''.vtt'' = 4" by simp
      with True have "length (take 4 a) = 4" by (simp only:)
      then have "length a \<ge> 4" by simp
      then have len: "length (drop 4 a) < length a" by simp
      from \<open>length a \<ge> 4\<close> have d: "drop 4 (a @ ''.vtt'' @ b) = drop 4 a @ ''.vtt'' @ b"
        by simp
      from True have "take 4 (a @ ''.vtt'' @ b) = ''.vtt''"
        using vtt_prefix_append [of a b] by blast
      then have "replace ''.vtt'' ''.srt'' (a @ ''.vtt'' @ b)
                 = ''.srt'' @ replace ''.vtt'' ''.srt'' (drop 4 a @ ''.vtt'' @ b)"
        by (simp only: replace_vtt_hit d)
      also have "replace ''.vtt'' ''.srt'' (drop 4 a @ ''.vtt'' @ b)
          = replace ''.vtt'' ''.srt'' (drop 4 a) @ ''.srt'' @ replace ''.vtt'' ''.srt'' b"
        using len by (rule less)
      finally show ?thesis by (simp add: replace_vtt_hit [OF True])
    next
      case False
      with nonempty have no: "take 4 (a @ ''.vtt'' @ b) \<noteq> ''.vtt''"
        using vtt_prefix_append [of a b] by blast
      from nonempty have len: "length (tl a) < length a" by simp
      from nonempty have "a @ ''.vtt'' @ b \<noteq> []" by simp
      then have "replace ''.vtt'' ''.srt'' (a @ ''.vtt'' @ b)
                 = hd (a @ ''.vtt'' @ b) # replace ''.vtt'' ''.srt'' (tl (a @ ''.vtt'' @ b))"
        using no by (rule replace_vtt_skip)
      also from nonempty have "hd (a @ ''.vtt'' @ b) = hd a" by simp
      also from nonempty have "tl (a @ ''.vtt'' @ b) = tl a @ ''.vtt'' @ b" by simp
      also have "replace ''.vtt'' ''.srt'' (tl a @ ''.vtt'' @ b)
          = replace ''.vtt'' ''.srt'' (tl a) @ ''.srt'' @ replace ''.vtt'' ''.srt'' b"
        using len by (rule less)
      finally show ?thesis
        by (simp add: replace_vtt_skip [OF nonempty False])
    qed
  qed
qed

lemma replace_vtt_suffix:
  "\<not> contains ''.vtt'' stem \<Longrightarrow> replace ''.vtt'' ''.srt'' (stem @ ''.vtt'') = stem @ ''.srt''"
  using replace_vtt_append [of stem "[]"] by (simp add: replace_no_occurrence)

lemma process_writes:
  assumes "read_file w filename enc = Inr text"
    and "writable w (replace ''.vtt'' ''.srt'' filename)"
  shows "process w filename enc
         = Inr (w\<lparr>written := (written w)(replace ''.vtt'' ''.srt'' filename
                                             \<mapsto> (Some enc, convert_content text))\<rparr>)"
  using assms by (simp add: process_def write_file_def write_text_def)

lemma process_2_writes:
  assumes "read_file w filename enc = Inr text"
    and "convert_content_2 text = Inr converted"
    and "writable w (replace ''.vtt'' ''.srt'' filename)"
  shows "process_2 encode w filename enc
         = Inr (w\<lparr>written := (written w)(replace ''.vtt'' ''.srt'' filename
                                             \<mapsto> (Some enc, converted))\<rparr>)"
  using assms by (simp add: process_2_def write_file_2_def write_text_def)

lemma convert_content_empty: "convert_content [] = [newline]"
  by code_simp

text \<open>
  Claim C8, as amended. \<open>process\<close> computes the output path with \<open>str.replace\<close>: the
  converted text is written to the input path with every occurrence of \<open>.vtt\<close> replaced
  by \<open>.srt\<close>, in the directory part as well as at the end. Where the path is a stem
  without \<open>.vtt\<close> followed by the suffix \<open>.vtt\<close>, only the suffix changes.
\<close>

theorem process_output_path:
  "(read_file w filename enc = Inr text \<and> writable w (replace ''.vtt'' ''.srt'' filename)
      \<longrightarrow> process w filename enc
          = Inr (w\<lparr>written := (written w)(replace ''.vtt'' ''.srt'' filename
                                              \<mapsto> (Some enc, convert_content text))\<rparr>))
   \<and> (read_file w filename enc = Inr text \<and> convert_content_2 text = Inr converted
        \<and> writable w (replace ''.vtt'' ''.srt'' filename)
      \<longrightarrow> process_2 encode w filename enc
          = Inr (w\<lparr>written := (written w)(replace ''.vtt'' ''.srt'' filename
                                              \<mapsto> (Some enc, converted))\<rparr>))
   \<and> replace ''.vtt'' ''.srt'' (a @ ''.vtt'' @ b)
       = replace ''.vtt'' ''.srt'' a @ ''.srt'' @ replace ''.vtt'' ''.srt'' b
   \<and> (\<not> contains ''.vtt'' stem \<longrightarrow> replace ''.vtt'' ''.srt'' (stem @ ''.vtt'') = stem @ ''.srt'')"
proof (intro conjI impI)
  assume "read_file w filename enc = Inr text \<and> writable w (replace ''.vtt'' ''.srt'' filename)"
  then show "process w filename enc
          = Inr (w\<lparr>written := (written w)(replace ''.vtt'' ''.srt'' filename
                                              \<mapsto> (Some enc, convert_content text))\<rparr>)"
    by (simp add: process_writes)
next
  assume "read_file w filename enc = Inr text \<and> convert_content_2 text = Inr converted
        \<and> writable w (replace ''.vtt'' ''.srt'' filename)"
  then show "process_2 encode w filename enc
          = Inr (w\<lparr>written := (written w)(replace ''.vtt'' ''.srt'' filename
                                              \<mapsto> (Some enc, converted))\<rparr>)"
    by (simp add: process_2_writes)
next
  show "replace ''.vtt'' ''.srt'' (a @ ''.vtt'' @ b)
       = replace ''.vtt'' ''.srt'' a @ ''.srt'' @ replace ''.vtt'' ''.srt'' b"
    by (rule replace_vtt_append)
next
  assume "\<not> contains ''.vtt'' stem"
  then show "replace ''.vtt'' ''.srt'' (stem @ ''.vtt'') = stem @ ''.srt''"
    by (rule replace_vtt_suffix)
qed

theorem process_output_path_witness:
  "process \<lparr>readable = (\<lambda>p e. Inr []), writable = (\<lambda>p. True), written = Map.empty\<rparr>
     ''dir/a.vtt'' ''utf-8''
   = Inr \<lparr>readable = (\<lambda>p e. Inr []), writable = (\<lambda>p. True),
          written = [''dir/a.srt'' \<mapsto> (Some ''utf-8'', [newline])]\<rparr>"
proof -
  let ?w = "\<lparr>readable = (\<lambda>p e. Inr []), writable = (\<lambda>p. True), written = Map.empty\<rparr>"
  have no: "\<not> contains ''.vtt'' ''dir/a''" by simp
  have path: "replace ''.vtt'' ''.srt'' (''dir/a'' @ ''.vtt'') = ''dir/a'' @ ''.srt''"
    using process_output_path [where stem = "''dir/a''"] no by blast
  have "read_file ?w ''dir/a.vtt'' ''utf-8'' = Inr []
        \<and> writable ?w (replace ''.vtt'' ''.srt'' ''dir/a.vtt'')"
    by (simp add: read_file_def)
  with process_output_path [of ?w "''dir/a.vtt''" "''utf-8''" "[]"]
  have "process ?w ''dir/a.vtt'' ''utf-8''
        = Inr (?w\<lparr>written := (written ?w)(replace ''.vtt'' ''.srt'' ''dir/a.vtt''
                                              \<mapsto> (Some ''utf-8'', convert_content []))\<rparr>)"
    by blast
  with path show ?thesis by (simp add: convert_content_empty)
qed

text \<open>
  Claim C8 as stated fails: a \<open>.vtt\<close> in a directory name is rewritten too, so the file
  is not written to the input path with its suffix replaced.
\<close>

theorem process_suffix_only_counterexample:
  "process \<lparr>readable = (\<lambda>p e. Inr []), writable = (\<lambda>p. True), written = Map.empty\<rparr>
     ''a.vtt.d/b.vtt'' ''utf-8''
   = Inr \<lparr>readable = (\<lambda>p e. Inr []), writable = (\<lambda>p. True),
          written = [''a.srt.d/b.srt'' \<mapsto> (Some ''utf-8'', [newline])]\<rparr>
   \<and> ''a.srt.d/b.srt'' \<noteq> ''a.vtt.d/b.srt''"
proof -
  have "replace ''.vtt'' ''.srt'' ''a.vtt.d/b.vtt'' = ''a.srt.d/b.srt''"
    by (simp add: replace.simps)
  then show ?thesis
    by (simp add: process_def read_file_def write_file_def write_text_def convert_content_empty)
qed

lemma write_file_first_try:
  "writable w filename
   \<Longrightarrow> write_file w filename data enc
       = Inr (w\<lparr>written := (written w)(filename \<mapsto> (Some enc, data))\<rparr>)"
  by (simp add: write_file_def write_text_def)

lemma write_file_retry:
  "\<not> writable w filename
   \<Longrightarrow> write_file w filename data enc
       = (if writable w (last (split os_sep filename))
          then Inr (w\<lparr>written := (written w)(last (split os_sep filename) \<mapsto> (Some enc, data))\<rparr>)
          else Inl IOError)"
  by (simp add: write_file_def write_text_def)

lemma write_file_2_retry:
  "\<not> writable w filename
   \<Longrightarrow> write_file_2 encode w filename data enc
       = (if writable w (last (split os_sep filename))
          then Inr (w\<lparr>written := (written w)(last (split os_sep filename)
                                               \<mapsto> (None, bytes_repr (encode enc data)))\<rparr>)
          else Inl IOError)"
  by (simp add: write_file_2_def write_text_def)

lemma bytes_repr_starts: "take 1 (bytes_repr b) = ''b''"
  by (simp add: bytes_repr_def Let_def)

lemma bytes_repr_differs: "take 1 data \<noteq> ''b'' \<Longrightarrow> bytes_repr b \<noteq> data"
  using bytes_repr_starts by metis

text \<open>
  Claim C9 fails on the second variant. When the first \<open>open\<close> fails, its \<open>write_file\<close>
  opens the base name without the requested encoding and writes
  \<open>str(data.encode(encoding_format))\<close>, which in Python 3 is the \<open>repr\<close> of the bytes:
  the text \<open>Hi\<close> and a newline are persisted as \<open>b'Hi\n'\<close> (nine characters, a backslash
  and an \<open>n\<close> for the newline) under the platform's default encoding. The first
  variant's retry writes the same text under the same encoding (\<open>write_file_retry\<close>).
\<close>

theorem write_file_2_retry_text:
  "write_file_2 (\<lambda>enc. utf8)
     \<lparr>readable = (\<lambda>p e. Inl IOError), writable = (\<lambda>p. p = ''a.srt''), written = Map.empty\<rparr>
     ''/ro/a.srt'' (''Hi'' @ [newline]) ''utf-8''
   = Inr \<lparr>readable = (\<lambda>p e. Inl IOError), writable = (\<lambda>p. p = ''a.srt''),
          written = [''a.srt'' \<mapsto> (None, [CHR ''b'', CHR 0x27, CHR ''H'', CHR ''i'', CHR 0x5C,
                                            CHR ''n'', CHR 0x27])]\<rparr>"
proof -
  have "last (split os_sep ''/ro/a.srt'') = ''a.srt''"
    by (simp add: os_sep_def)
  moreover have "bytes_repr (utf8 (''Hi'' @ [newline]))
    = [CHR ''b'', CHR 0x27, CHR ''H'', CHR ''i'', CHR 0x5C, CHR ''n'', CHR 0x27]"
    by (simp add: bytes_repr_def utf8_def newline_def Let_def)
  ultimately show ?thesis
    by (simp add: write_file_2_retry)
qed

theorem write_file_2_retry_text_witness:
  "(case write_file_2 (\<lambda>enc. utf8)
       \<lparr>readable = (\<lambda>p e. Inl IOError), writable = (\<lambda>p. p = ''a.srt''), written = Map.empty\<rparr>
       ''/ro/a.srt'' (''Hi'' @ [newline]) ''utf-8'' of
      Inl e \<Rightarrow> False
    | Inr w \<Rightarrow> written w ''a.srt'' \<noteq> Some (Some ''utf-8'', ''Hi'' @ [newline]))"
  using write_file_2_retry_text by simp

section \<open>Matching, step by step\<close>

lemma rmatch_Seq_then: "rmatch (Seq a b) s = concat (map (then_match b) (rmatch a s))"
  by (simp add: then_match_def [abs_def])

lemma then_match_pair: "then_match b (c, r) = map (\<lambda>y. (c @ fst y, snd y)) (rmatch b r)"
  by (simp add: then_match_def)

lemma rmatch_Rep_0: "rmatch (Rep lo 0 a) s = [([], s)]"
  by (simp add: rmatch.simps(4))

lemma rmatch_Rep_then:
  "hi \<noteq> 0 \<Longrightarrow> rmatch (Rep lo hi a) s
     = concat (map (then_match (Rep (lo - 1) (hi - 1) a)) (rmatch a s))
       @ (if lo = 0 then [([], s)] else [])"
  by (subst rmatch.simps(4)) (simp add: then_match_def [abs_def])

lemma rmatch_Atom_Nil: "rmatch (Atom p) [] = []"
  by simp

lemma rmatch_Atom_Cons: "rmatch (Atom p) (c # cs) = (if p c then [([], cs)] else [])"
  by simp

lemmas reval = rmatch.simps(1) rmatch_Atom_Nil rmatch_Atom_Cons rmatch_Seq_then then_match_pair
  rmatch_Rep_0 rmatch_Rep_then rmatch.simps(6)
  seqs_def lit_def chr_def dot_def digit_def hms_def millis_def timestamp_template_def

lemma digit_neq [simp]:
  assumes "is_digit c"
  shows "c \<noteq> CHR '':''" "c \<noteq> CHR '',''" "c \<noteq> CHR ''.''" "c \<noteq> CHR '' ''" "c \<noteq> CHR ''-''"
    "c \<noteq> CHR ''>''" "c \<noteq> newline"
  using assms by (auto simp: is_digit_def newline_def)

lemma re_sub_Nil: "rmatch r [] = [] \<Longrightarrow> re_sub r rep [] = []"
  by simp

lemma re_sub_skip: "rmatch r (c # cs) = [] \<Longrightarrow> re_sub r rep (c # cs) = c # re_sub r rep cs"
  by simp

declare re_sub.simps [simp del]

section \<open>What a match consumes\<close>

lemma mem_Atom:
  "x \<in> set (rmatch (Atom p) s) \<longleftrightarrow> (\<exists>c cs. s = c # cs \<and> p c \<and> x = ([], cs))"
  by (cases s) auto

lemma mem_Seq:
  "x \<in> set (rmatch (Seq a b) s)
   \<longleftrightarrow> (\<exists>xa \<in> set (rmatch a s). \<exists>y \<in> set (rmatch b (snd xa)). x = (fst xa @ fst y, snd y))"
  by auto

lemma mem_Rep:
  "x \<in> set (rmatch (Rep lo hi a) s)
   \<longleftrightarrow> (if hi = 0 then x = ([], s)
        else (\<exists>xa \<in> set (rmatch a s). \<exists>y \<in> set (rmatch (Rep (lo - 1) (hi - 1) a) (snd xa)).
                x = (fst xa @ fst y, snd y))
             \<or> (lo = 0 \<and> x = ([], s)))"
  by (subst rmatch.simps(4)) auto

lemma mem_Star:
  "x \<in> set (rmatch (Star a) s)
   \<longleftrightarrow> (\<exists>xa \<in> set (rmatch a s). length (snd xa) < length s
          \<and> (\<exists>y \<in> set (rmatch (Star a) (snd xa)). x = (fst xa @ fst y, snd y)))
       \<or> x = ([], s)"
  by (subst rmatch.simps(5)) (auto split: if_splits)

lemma mem_Group:
  "x \<in> set (rmatch (Group a) s)
   \<longleftrightarrow> (\<exists>xa \<in> set (rmatch a s). x = (fst xa @ [take (length s - length (snd xa)) s], snd xa))"
  by auto

lemma rmatch_suffix:
  "x \<in> set (rmatch r s) \<Longrightarrow> \<exists>u. s = u @ snd x \<and> (nl_free r \<longrightarrow> newline \<notin> set u)"
proof (induction r s arbitrary: x rule: rmatch.induct)
  case (1 s)
  then show ?case by simp
next
  case (2 p s)
  then show ?case by (auto simp: mem_Atom)
next
  case (3 a b s)
  from "3.prems" obtain xa y where xa: "xa \<in> set (rmatch a s)"
    and y: "y \<in> set (rmatch b (snd xa))" and x: "x = (fst xa @ fst y, snd y)"
    unfolding mem_Seq by blast
  from "3.IH"(1) [OF xa] obtain u1 where u1: "s = u1 @ snd xa"
    and n1: "nl_free a \<longrightarrow> newline \<notin> set u1" by blast
  from "3.IH"(2) [OF xa y] obtain u2 where u2: "snd xa = u2 @ snd y"
    and n2: "nl_free b \<longrightarrow> newline \<notin> set u2" by blast
  from u1 u2 x n1 n2 have "s = (u1 @ u2) @ snd x \<and> (nl_free (Seq a b) \<longrightarrow> newline \<notin> set (u1 @ u2))"
    by simp
  then show ?case by blast
next
  case (4 lo hi a s)
  show ?case
  proof (cases "hi = 0 \<or> x = ([], s)")
    case True
    with "4.prems" have "x = ([], s)" by (auto simp: mem_Rep [of x lo hi a s] split: if_splits)
    then show ?thesis by simp
  next
    case False
    with "4.prems"(1) have "\<exists>xa \<in> set (rmatch a s).
        \<exists>y \<in> set (rmatch (Rep (lo - 1) (hi - 1) a) (snd xa)). x = (fst xa @ fst y, snd y)"
      by (simp add: mem_Rep [of x lo hi a s] split: if_splits)
    then obtain xa y where xa: "xa \<in> set (rmatch a s)"
      and y: "y \<in> set (rmatch (Rep (lo - 1) (hi - 1) a) (snd xa))"
      and x: "x = (fst xa @ fst y, snd y)"
      by blast
    from False have hi: "hi \<noteq> 0" by simp
    from "4.IH"(1) [OF hi xa] obtain u1 where u1: "s = u1 @ snd xa"
      and n1: "nl_free a \<longrightarrow> newline \<notin> set u1" by blast
    from "4.IH"(2) [OF hi xa y] obtain u2 where u2: "snd xa = u2 @ snd y"
      and n2: "nl_free (Rep (lo - 1) (hi - 1) a) \<longrightarrow> newline \<notin> set u2" by blast
    from u1 u2 x n1 n2
    have "s = (u1 @ u2) @ snd x \<and> (nl_free (Rep lo hi a) \<longrightarrow> newline \<notin> set (u1 @ u2))"
      by simp
    then show ?thesis by blast
  qed
next
  case (5 a s)
  show ?case
  proof (cases "x = ([], s)")
    case True
    then show ?thesis by simp
  next
    case False
    with "5.prems" obtain xa y where xa: "xa \<in> set (rmatch a s)"
      and len: "length (snd xa) < length s"
      and y: "y \<in> set (rmatch (Star a) (snd xa))" and x: "x = (fst xa @ fst y, snd y)"
      unfolding mem_Star [of x a s] by blast
    from "5.IH"(1) [OF xa] obtain u1 where u1: "s = u1 @ snd xa"
      and n1: "nl_free a \<longrightarrow> newline \<notin> set u1" by blast
    from "5.IH"(2) [OF xa len y] obtain u2 where u2: "snd xa = u2 @ snd y"
      and n2: "nl_free (Star a) \<longrightarrow> newline \<notin> set u2" by blast
    from u1 u2 x n1 n2
    have "s = (u1 @ u2) @ snd x \<and> (nl_free (Star a) \<longrightarrow> newline \<notin> set (u1 @ u2))"
      by simp
    then show ?thesis by blast
  qed
next
  case (6 a s)
  from "6.prems" obtain xa where xa: "xa \<in> set (rmatch a s)" and x: "snd x = snd xa"
    unfolding mem_Group by auto
  from "6.IH" [OF xa] x show ?case by simp
qed

lemma rmatch_length: "x \<in> set (rmatch r s) \<Longrightarrow> length (snd x) \<le> length s"
  using rmatch_suffix [of x r s] by auto

lemma rmatch_group_free: "group_free r \<Longrightarrow> x \<in> set (rmatch r s) \<Longrightarrow> fst x = []"
proof (induction r s arbitrary: x rule: rmatch.induct)
  case (1 s)
  then show ?case by simp
next
  case (2 p s)
  then show ?case by (auto simp: mem_Atom)
next
  case (3 a b s)
  from "3.prems"(2) obtain xa y where xa: "xa \<in> set (rmatch a s)"
    and y: "y \<in> set (rmatch b (snd xa))" and x: "x = (fst xa @ fst y, snd y)"
    unfolding mem_Seq by blast
  from "3.prems"(1) "3.IH"(1) [OF _ xa] "3.IH"(2) [OF xa _ y] x show ?case by simp
next
  case (4 lo hi a s)
  show ?case
  proof (cases "hi = 0 \<or> x = ([], s)")
    case True
    with "4.prems" have "x = ([], s)" by (auto simp: mem_Rep [of x lo hi a s] split: if_splits)
    then show ?thesis by simp
  next
    case False
    with "4.prems"(2) have "\<exists>xa \<in> set (rmatch a s).
        \<exists>y \<in> set (rmatch (Rep (lo - 1) (hi - 1) a) (snd xa)). x = (fst xa @ fst y, snd y)"
      by (simp add: mem_Rep [of x lo hi a s] split: if_splits)
    then obtain xa y where xa: "xa \<in> set (rmatch a s)"
      and y: "y \<in> set (rmatch (Rep (lo - 1) (hi - 1) a) (snd xa))"
      and x: "x = (fst xa @ fst y, snd y)"
      by blast
    from False have hi: "hi \<noteq> 0" by simp
    from "4.prems"(1) "4.IH"(1) [OF hi _ xa] "4.IH"(2) [OF hi xa _ y] x show ?thesis by simp
  qed
next
  case (5 a s)
  show ?case
  proof (cases "x = ([], s)")
    case True
    then show ?thesis by simp
  next
    case False
    with "5.prems" obtain xa y where xa: "xa \<in> set (rmatch a s)"
      and len: "length (snd xa) < length s"
      and y: "y \<in> set (rmatch (Star a) (snd xa))" and x: "x = (fst xa @ fst y, snd y)"
      unfolding mem_Star [of x a s] by blast
    from "5.prems"(1) "5.IH"(1) [OF _ xa] "5.IH"(2) [OF xa len _ y] x show ?thesis by simp
  qed
next
  case (6 a s)
  then show ?case by simp
qed

lemma Seq_I:
  "xa \<in> set (rmatch a s) \<Longrightarrow> y \<in> set (rmatch b (snd xa))
   \<Longrightarrow> (fst xa @ fst y, snd y) \<in> set (rmatch (Seq a b) s)"
  unfolding mem_Seq by blast

lemma Rep_I:
  "hi \<noteq> 0 \<Longrightarrow> xa \<in> set (rmatch a s) \<Longrightarrow> y \<in> set (rmatch (Rep (lo - 1) (hi - 1) a) (snd xa))
   \<Longrightarrow> (fst xa @ fst y, snd y) \<in> set (rmatch (Rep lo hi a) s)"
  unfolding mem_Rep [of _ lo hi a s] by auto

lemma Star_I:
  "xa \<in> set (rmatch a s) \<Longrightarrow> length (snd xa) < length s \<Longrightarrow> y \<in> set (rmatch (Star a) (snd xa))
   \<Longrightarrow> (fst xa @ fst y, snd y) \<in> set (rmatch (Star a) s)"
  unfolding mem_Star [of _ a s] by blast

lemma Group_I:
  "xa \<in> set (rmatch a s)
   \<Longrightarrow> (fst xa @ [take (length s - length (snd xa)) s], snd xa) \<in> set (rmatch (Group a) s)"
  unfolding mem_Group by blast

lemma rmatch_append:
  "x \<in> set (rmatch r s) \<Longrightarrow> (fst x, snd x @ t) \<in> set (rmatch r (s @ t))"
proof (induction r s arbitrary: x rule: rmatch.induct)
  case (1 s)
  then show ?case by simp
next
  case (2 p s)
  then show ?case by (auto simp: mem_Atom)
next
  case (3 a b s)
  from "3.prems" obtain xa y where xa: "xa \<in> set (rmatch a s)"
    and y: "y \<in> set (rmatch b (snd xa))" and x: "x = (fst xa @ fst y, snd y)"
    unfolding mem_Seq by blast
  from "3.IH"(1) [OF xa] have 1: "(fst xa, snd xa @ t) \<in> set (rmatch a (s @ t))" .
  from "3.IH"(2) [OF xa y] have 2: "(fst y, snd y @ t) \<in> set (rmatch b (snd xa @ t))" .
  from Seq_I [OF 1, of "(fst y, snd y @ t)" b] 2 show ?case by (simp add: x)
next
  case (4 lo hi a s)
  show ?case
  proof (cases "hi = 0")
    case True
    with "4.prems" show ?thesis by (simp add: rmatch_Rep_0)
  next
    case hi: False
    with "4.prems" have "(\<exists>xa \<in> set (rmatch a s).
        \<exists>y \<in> set (rmatch (Rep (lo - 1) (hi - 1) a) (snd xa)). x = (fst xa @ fst y, snd y))
        \<or> (lo = 0 \<and> x = ([], s))"
      by (simp add: mem_Rep [of x lo hi a s])
    then show ?thesis
    proof
      assume "lo = 0 \<and> x = ([], s)"
      with hi show ?thesis by (auto simp: mem_Rep [of _ 0 hi a "s @ t"])
    next
      assume "\<exists>xa \<in> set (rmatch a s).
        \<exists>y \<in> set (rmatch (Rep (lo - 1) (hi - 1) a) (snd xa)). x = (fst xa @ fst y, snd y)"
      then obtain xa y where xa: "xa \<in> set (rmatch a s)"
        and y: "y \<in> set (rmatch (Rep (lo - 1) (hi - 1) a) (snd xa))"
        and x: "x = (fst xa @ fst y, snd y)"
        by blast
      from "4.IH"(1) [OF hi xa] have 1: "(fst xa, snd xa @ t) \<in> set (rmatch a (s @ t))" .
      from "4.IH"(2) [OF hi xa y]
      have 2: "(fst y, snd y @ t) \<in> set (rmatch (Rep (lo - 1) (hi - 1) a) (snd xa @ t))" .
      from Rep_I [OF hi 1, of "(fst y, snd y @ t)" lo] 2 show ?thesis by (simp add: x)
    qed
  qed
next
  case (5 a s)
  show ?case
  proof (cases "x = ([], s)")
    case True
    then show ?thesis by (simp add: mem_Star [of _ a "s @ t"])
  next
    case False
    with "5.prems" obtain xa y where xa: "xa \<in> set (rmatch a s)"
      and len: "length (snd xa) < length s"
      and y: "y \<in> set (rmatch (Star a) (snd xa))" and x: "x = (fst xa @ fst y, snd y)"
      unfolding mem_Star [of x a s] by blast
    from "5.IH"(1) [OF xa] have 1: "(fst xa, snd xa @ t) \<in> set (rmatch a (s @ t))" .
    from "5.IH"(2) [OF xa len y]
    have 2: "(fst y, snd y @ t) \<in> set (rmatch (Star a) (snd xa @ t))" .
    from Star_I [OF 1, of "(fst y, snd y @ t)"] 2 len show ?thesis by (simp add: x)
  qed
next
  case (6 a s)
  from "6.prems" obtain xa where xa: "xa \<in> set (rmatch a s)"
    and x: "x = (fst xa @ [take (length s - length (snd xa)) s], snd xa)"
    unfolding mem_Group by auto
  from "6.IH" [OF xa] have 1: "(fst xa, snd xa @ t) \<in> set (rmatch a (s @ t))" .
  from rmatch_suffix [OF xa] obtain u where u: "s = u @ snd xa" by blast
  have "take (length (s @ t) - length (snd xa @ t)) (s @ t) = take (length s - length (snd xa)) s"
    by (subst (1 2 3 4) u) simp
  with Group_I [OF 1] show ?case by (simp add: x)
qed

section \<open>The first match of the timestamp patterns\<close>

lemma re_match_Some_iff: "re_match r s = Some x \<longleftrightarrow> (\<exists>xs. rmatch r s = x # xs)"
  by (auto simp: re_match_def split: list.splits)

lemma re_match_Seq:
  assumes "re_match a s = Some x" and "re_match b (snd x) = Some y"
  shows "re_match (Seq a b) s = Some (fst x @ fst y, snd y)"
  using assms by (auto simp: re_match_Some_iff)

lemma re_match_seqs_Nil: "re_match (seqs []) s = Some ([], s)"
  by (simp add: seqs_def re_match_def)

lemma re_match_seqs_Cons:
  assumes "re_match r s = Some x" and "re_match (seqs rs) (snd x) = Some y"
  shows "re_match (seqs (r # rs)) s = Some (fst x @ fst y, snd y)"
  using assms by (simp add: seqs_def re_match_Seq)

lemma re_match_chr: "re_match (chr c) (c # rest) = Some ([], rest)"
  by (simp add: chr_def re_match_def)

lemma re_match_dot: "c \<noteq> newline \<Longrightarrow> re_match dot (c # rest) = Some ([], rest)"
  by (simp add: dot_def re_match_def)

lemma re_match_lit: "re_match (lit t) (t @ rest) = Some ([], rest)"
proof (induction t)
  case Nil
  show ?case by (simp add: lit_def re_match_def)
next
  case (Cons c t)
  from re_match_Seq [of "chr c" "c # t @ rest" "([], t @ rest)" "lit t" "([], rest)"]
    re_match_chr [of c "t @ rest"] Cons
  show ?case by (simp add: lit_def)
qed

lemma shaped_dd: "shaped ''dd'' t \<longleftrightarrow> (\<exists>a b. t = [a, b] \<and> is_digit a \<and> is_digit b)"
  by (auto simp: shaped_def shape_char_def list_all2_Cons1)

lemma shaped_ddd:
  "shaped ''ddd'' t \<longleftrightarrow> (\<exists>a b c. t = [a, b, c] \<and> is_digit a \<and> is_digit b \<and> is_digit c)"
  by (auto simp: shaped_def shape_char_def list_all2_Cons1)

lemma shaped_mmss:
  "shaped ''dd:dd'' t
   \<longleftrightarrow> (\<exists>a b c d. t = [a, b, CHR '':'', c, d] \<and> is_digit a \<and> is_digit b \<and> is_digit c \<and> is_digit d)"
  by (auto simp: shaped_def shape_char_def list_all2_Cons1)

lemma shaped_hhmmss:
  "shaped ''dd:dd:dd'' t
   \<longleftrightarrow> (\<exists>a b c d e f. t = [a, b, CHR '':'', c, d, CHR '':'', e, f]
         \<and> is_digit a \<and> is_digit b \<and> is_digit c \<and> is_digit d \<and> is_digit e \<and> is_digit f)"
  by (auto simp: shaped_def shape_char_def list_all2_Cons1)

lemma re_match_millis: "shaped ''ddd'' m \<Longrightarrow> re_match millis (m @ rest) = Some ([m], rest)"
  by (auto simp: shaped_ddd re_match_def reval simp del: rmatch.simps(3))

lemma re_match_hms_0_2_full:
  "shaped ''dd:dd:dd'' t \<Longrightarrow> re_match (hms 0 2) (t @ rest) = Some ([t], rest)"
  by (auto simp: shaped_hhmmss re_match_def reval simp del: rmatch.simps(3))

lemma re_match_hms_0_2_minute:
  "shaped ''dd:dd'' t \<Longrightarrow> c \<noteq> CHR '':''
   \<Longrightarrow> re_match (hms 0 2) (t @ c # rest) = Some ([t], c # rest)"
  by (auto simp: shaped_mmss re_match_def reval simp del: rmatch.simps(3))

lemma re_match_hms_0_2_second:
  "shaped ''dd'' t \<Longrightarrow> c \<noteq> CHR '':''
   \<Longrightarrow> re_match (hms 0 2) (t @ c # rest) = Some ([t], c # rest)"
  by (auto simp: shaped_dd re_match_def reval simp del: rmatch.simps(3))

lemma re_match_hms_1_1:
  "shaped ''dd:dd'' t \<Longrightarrow> re_match (hms 1 1) (t @ rest) = Some ([t], rest)"
  by (auto simp: shaped_mmss re_match_def reval simp del: rmatch.simps(3))

lemma re_match_hms_0_0:
  "shaped ''dd'' t \<Longrightarrow> re_match (hms 0 0) (t @ rest) = Some ([t], rest)"
  by (auto simp: shaped_dd re_match_def reval simp del: rmatch.simps(3))

lemma nl_free_cue_setting: "nl_free (Star cue_setting)"
  by (simp add: cue_setting_def many1_def seqs_def chr_def is_word_def is_digit_def newline_def)

lemma group_free_cue_setting: "group_free (Star cue_setting)"
  by (simp add: cue_setting_def many1_def seqs_def chr_def)

lemma cue_settings_no_newline: "cue_settings cs \<Longrightarrow> newline \<notin> set cs"
proof -
  assume "cue_settings cs"
  then obtain x where x: "x \<in> set (rmatch (Star cue_setting) cs)" and "snd x = []"
    by (auto simp: cue_settings_def list_ex_iff)
  with rmatch_suffix [OF x] nl_free_cue_setting show ?thesis by auto
qed

lemma append_single_eq:
  "a @ [c] = b @ c # r \<Longrightarrow> c \<notin> set a \<Longrightarrow> c \<notin> set b \<Longrightarrow> r = []"
proof (induction a arbitrary: b)
  case Nil
  then show ?case by (cases b) auto
next
  case (Cons x a)
  then show ?case by (cases b) auto
qed

lemma tail_match:
  assumes "cue_settings cs"
  shows "re_match (seqs [Star cue_setting, chr newline]) (cs @ [newline]) = Some ([], [])"
proof -
  let ?T = "Seq (Star cue_setting) (Seq (chr newline) Eps)"
  from assms obtain x where x: "x \<in> set (rmatch (Star cue_setting) cs)" and sx: "snd x = []"
    by (auto simp: cue_settings_def list_ex_iff)
  from group_free_cue_setting x have fx: "fst x = []" by (rule rmatch_group_free)
  from rmatch_append [OF x, of "[newline]"] fx sx
  have 1: "([], [newline]) \<in> set (rmatch (Star cue_setting) (cs @ [newline]))" by simp
  have 2: "([], []) \<in> set (rmatch (Seq (chr newline) Eps) (snd ([], [newline])))"
    by (simp add: chr_def)
  from Seq_I [OF 1 2] have mem: "([], []) \<in> set (rmatch ?T (cs @ [newline]))" by simp
  have all: "z = ([], [])" if z: "z \<in> set (rmatch ?T (cs @ [newline]))" for z
  proof -
    have "group_free ?T" using group_free_cue_setting by (simp add: chr_def)
    then have fz: "fst z = []" using z by (rule rmatch_group_free)
    from z obtain xa y where xa: "xa \<in> set (rmatch (Star cue_setting) (cs @ [newline]))"
      and y: "y \<in> set (rmatch (Seq (chr newline) Eps) (snd xa))"
      and zy: "z = (fst xa @ fst y, snd y)"
      unfolding mem_Seq [of z] by blast
    from y have sxa: "snd xa = newline # snd y"
      by (auto simp: mem_Seq mem_Atom chr_def)
    from rmatch_suffix [OF xa] nl_free_cue_setting obtain u
      where u: "cs @ [newline] = u @ snd xa" and nu: "newline \<notin> set u" by blast
    from u sxa have "cs @ [newline] = u @ newline # snd y" by simp
    then have "snd y = []"
      using cue_settings_no_newline [OF assms] nu by (rule append_single_eq)
    with zy fz show ?thesis by (cases z) simp
  qed
  from mem obtain z zs where zs: "rmatch ?T (cs @ [newline]) = z # zs"
    by (cases "rmatch ?T (cs @ [newline])") auto
  then have "z \<in> set (rmatch ?T (cs @ [newline]))" by simp
  then have "z = ([], [])" by (rule all)
  with zs show ?thesis by (simp add: re_match_def seqs_def del: rmatch.simps)
qed

lemma template_match:
  assumes a1: "\<And>rest. re_match a (t1 @ c # rest) = Some ([t1], c # rest)"
    and a2: "\<And>rest. re_match a (t2 @ c # rest) = Some ([t2], c # rest)"
    and sep: "\<And>rest. re_match sep (c # rest) = Some ([], rest)"
    and m1: "shaped ''ddd'' m1" and m2: "shaped ''ddd'' m2"
    and cs: "cue_settings cs"
  shows "re_match (timestamp_template sep a millis)
           (t1 @ c # m1 @ '' --> '' @ t2 @ c # m2 @ cs @ [newline])
         = Some ([t1, m1, t2, m2], [])"
proof -
  let ?s9 = "cs @ [newline]"
  let ?s7 = "m2 @ ?s9"
  let ?s6 = "c # ?s7"
  let ?s5 = "t2 @ ?s6"
  let ?s4 = "'' --> '' @ ?s5"
  let ?s3 = "m1 @ ?s4"
  let ?s2 = "c # ?s3"
  let ?tail = "[Star cue_setting, chr newline]"
  have 9: "re_match (seqs ?tail) ?s9 = Some ([], [])"
    using cs by (rule tail_match)
  have 7: "re_match (seqs (millis # ?tail)) ?s7 = Some ([m2], [])"
    using re_match_seqs_Cons [OF re_match_millis [OF m2, of ?s9], of ?tail "([], [])"] 9
    by simp
  have 6: "re_match (seqs (sep # millis # ?tail)) ?s6 = Some ([m2], [])"
    using re_match_seqs_Cons [OF sep [of ?s7], of "millis # ?tail" "([m2], [])"] 7
    by simp
  have 5: "re_match (seqs (a # sep # millis # ?tail)) ?s5 = Some ([t2, m2], [])"
    using re_match_seqs_Cons [OF a2 [of ?s7], of "sep # millis # ?tail" "([m2], [])"] 6
    by simp
  have 4: "re_match (seqs (lit '' --> '' # a # sep # millis # ?tail)) ?s4 = Some ([t2, m2], [])"
    using re_match_seqs_Cons [OF re_match_lit [of "'' --> ''" ?s5],
        of "a # sep # millis # ?tail" "([t2, m2], [])"] 5
    by simp
  have 3: "re_match (seqs (millis # lit '' --> '' # a # sep # millis # ?tail)) ?s3
           = Some ([m1, t2, m2], [])"
    using re_match_seqs_Cons [OF re_match_millis [OF m1, of ?s4],
        of "lit '' --> '' # a # sep # millis # ?tail" "([t2, m2], [])"] 4
    by simp
  have 2: "re_match (seqs (sep # millis # lit '' --> '' # a # sep # millis # ?tail)) ?s2
           = Some ([m1, t2, m2], [])"
    using re_match_seqs_Cons [OF sep [of ?s3],
        of "millis # lit '' --> '' # a # sep # millis # ?tail" "([m1, t2, m2], [])"] 3
    by simp
  have 1: "re_match (seqs (a # sep # millis # lit '' --> '' # a # sep # millis # ?tail))
             (t1 @ ?s2) = Some ([t1, m1, t2, m2], [])"
    using re_match_seqs_Cons [OF a1 [of ?s3],
        of "sep # millis # lit '' --> '' # a # sep # millis # ?tail" "([m1, t2, m2], [])"] 2
    by simp
  then show ?thesis by (simp add: timestamp_template_def)
qed

lemma re_sub_hit:
  "re_match r s = Some x \<Longrightarrow> length (snd x) < length s
   \<Longrightarrow> re_sub r rep s = expand rep (fst x) @ re_sub r rep (snd x)"
  by (subst re_sub.simps) (auto simp: re_match_Some_iff)

lemma template_Nil: "rmatch (timestamp_template sep (hms lo hi) millis) [] = []"
proof (cases "hi = 0")
  case True
  then show ?thesis by (simp add: reval del: rmatch.simps(3))
next
  case False
  then show ?thesis by (simp add: reval del: rmatch.simps(3))
qed

lemma re_sub_line:
  assumes "re_match (timestamp_template sep (hms lo hi) millis) s = Some (caps, [])"
    and "s \<noteq> []"
  shows "re_sub (timestamp_template sep (hms lo hi) millis) rep s = expand rep caps"
  using re_sub_hit [OF assms(1), of rep] assms(2) by (simp add: re_sub_Nil template_Nil)

lemma cue_settings_Nil: "cue_settings []"
  by (simp add: cue_settings_def rmatch.simps(5) cue_setting_def many1_def seqs_def chr_def)

section \<open>Lines that the padding patterns leave alone\<close>

lemma not_digit_literal [simp]:
  "\<not> is_digit CHR '':''" "\<not> is_digit CHR '',''" "\<not> is_digit CHR ''.''"
  "\<not> is_digit CHR '' ''" "\<not> is_digit CHR ''-''" "\<not> is_digit CHR ''>''"
  "\<not> is_digit newline"
  by (simp_all add: is_digit_def newline_def)

lemma scan_minute_full:
  assumes "shaped ''dd:dd:dd'' t1" "shaped ''ddd'' m1" "shaped ''dd:dd:dd'' t2" "shaped ''ddd'' m2"
  shows "re_sub (timestamp_template (chr CHR '','') (hms 1 1) millis) rep
           (t1 @ '','' @ m1 @ '' --> '' @ t2 @ '','' @ m2 @ [newline])
         = t1 @ '','' @ m1 @ '' --> '' @ t2 @ '','' @ m2 @ [newline]"
  using assms unfolding shaped_hhmmss shaped_ddd
  by (elim exE conjE) (simp add: reval re_sub_Nil re_sub_skip del: rmatch.simps(3))

lemma scan_second_full:
  assumes "shaped ''dd:dd:dd'' t1" "shaped ''ddd'' m1" "shaped ''dd:dd:dd'' t2" "shaped ''ddd'' m2"
  shows "re_sub (timestamp_template (chr CHR '','') (hms 0 0) millis) rep
           (t1 @ '','' @ m1 @ '' --> '' @ t2 @ '','' @ m2 @ [newline])
         = t1 @ '','' @ m1 @ '' --> '' @ t2 @ '','' @ m2 @ [newline]"
  using assms unfolding shaped_hhmmss shaped_ddd
  by (elim exE conjE) (simp add: reval re_sub_Nil re_sub_skip del: rmatch.simps(3))

lemma scan_minute_second:
  assumes "shaped ''dd'' t1" "shaped ''ddd'' m1" "shaped ''dd'' t2" "shaped ''ddd'' m2"
  shows "re_sub (timestamp_template (chr CHR '','') (hms 1 1) millis) rep
           (t1 @ '','' @ m1 @ '' --> '' @ t2 @ '','' @ m2 @ [newline])
         = t1 @ '','' @ m1 @ '' --> '' @ t2 @ '','' @ m2 @ [newline]"
  using assms unfolding shaped_dd shaped_ddd
  by (elim exE conjE) (simp add: reval re_sub_Nil re_sub_skip del: rmatch.simps(3))

lemma scan_minute_mixed:
  assumes "shaped ''dd:dd'' t1" "shaped ''ddd'' m1" "shaped ''dd:dd:dd'' t2" "shaped ''ddd'' m2"
  shows "re_sub (timestamp_template (chr CHR '','') (hms 1 1) millis) rep
           (t1 @ '','' @ m1 @ '' --> '' @ t2 @ '','' @ m2 @ [newline])
         = t1 @ '','' @ m1 @ '' --> '' @ t2 @ '','' @ m2 @ [newline]"
  using assms unfolding shaped_mmss shaped_hhmmss shaped_ddd
  by (elim exE conjE) (simp add: reval re_sub_Nil re_sub_skip del: rmatch.simps(3))

lemma scan_second_mixed:
  assumes "shaped ''dd:dd'' t1" "shaped ''ddd'' m1" "shaped ''dd:dd:dd'' t2" "shaped ''ddd'' m2"
  shows "re_sub (timestamp_template (chr CHR '','') (hms 0 0) millis) rep
           (t1 @ '','' @ m1 @ '' --> '' @ t2 @ '','' @ m2 @ [newline])
         = t1 @ '','' @ m1 @ '' --> '' @ t2 @ '','' @ m2 @ [newline]"
  using assms unfolding shaped_mmss shaped_hhmmss shaped_ddd
  by (elim exE conjE) (simp add: reval re_sub_Nil re_sub_skip del: rmatch.simps(3))

end
